theory Spec2Isabelle
  imports Main "HOL-Library.Multiset"
begin

section \<open>Data model (shared/schema.ts)\<close>

text \<open>
  The four entity types of the forum.  Record selectors are global constants in
  Isabelle, so the field \<open>f\<close> of \<open>User\<close>, \<open>Post\<close>, \<open>Reply\<close> and \<open>Vote\<close> is written
  \<open>u_f\<close>, \<open>p_f\<close>, \<open>r_f\<close> and \<open>v_f\<close>.  Numeric ids are JavaScript numbers holding
  integers (\<open>int\<close>); a nullable column is an \<open>option\<close>; \<open>createdAt\<close> is the
  millisecond timestamp that \<open>new Date(x).getTime()\<close> reads.  The vote type is the
  closed set that the routes accept (\<open>z.enum(["upvote", "downvote"])\<close>).
\<close>

datatype VoteType = upvote | downvote

record User =
  u_id :: string
  u_username :: string
  u_email :: string

record Post =
  p_id :: int
  p_title :: string
  p_content :: string
  p_category :: string
  p_authorId :: string
  p_createdAt :: int
  p_upvotes :: int
  p_downvotes :: int
  p_solutionId :: "int option"

record Reply =
  r_id :: int
  r_content :: string
  r_postId :: int
  r_authorId :: string
  r_createdAt :: int
  r_parentReplyId :: "int option"
  r_upvotes :: int
  r_downvotes :: int
  r_isSolution :: bool

record Vote =
  v_id :: int
  v_userId :: string
  v_postId :: "int option"
  v_replyId :: "int option"
  v_voteType :: VoteType

text \<open>JavaScript truthiness of a \<open>number | null\<close>: \<open>null\<close> and \<open>0\<close> are falsy.\<close>

definition truthy :: "int option \<Rightarrow> bool" where
  "truthy x = (case x of None \<Rightarrow> False | Some n \<Rightarrow> n \<noteq> 0)"


section \<open>Thread Assembler (organizeRepliesIntoThreads)\<close>

text \<open>\<open>replyMap[reply.id] = reply\<close> for each reply in order: a later reply wins.\<close>

definition buildReplyMap :: "Reply list \<Rightarrow> (int \<rightharpoonup> Reply)" where
  "buildReplyMap sortedReplies =
     fold (\<lambda>reply m. m(r_id reply \<mapsto> reply)) sortedReplies Map.empty"

text \<open>\<open>replyMap[i]?.parentReplyId\<close>: undefined (falsy) when \<open>i\<close> is not a key.\<close>

definition parentOf :: "(int \<rightharpoonup> Reply) \<Rightarrow> int \<Rightarrow> int option" where
  "parentOf replyMap i = (case replyMap i of None \<Rightarrow> None | Some r \<Rightarrow> r_parentReplyId r)"

text \<open>
  The ancestor-chasing \<open>while\<close> loop with its two variables.  The loop has no bound of
  its own, so it is a partial function: \<open>None\<close> is the loop that never exits.
\<close>

partial_function (option) findTopParent ::
  "(int \<rightharpoonup> Reply) \<Rightarrow> int \<Rightarrow> int \<Rightarrow> int option" where
  "findTopParent replyMap currentParentId topParentId =
     (if currentParentId \<noteq> 0 \<and> truthy (parentOf replyMap currentParentId)
      then (let next = (case parentOf replyMap currentParentId of
                          None \<Rightarrow> 0
                        | Some p \<Rightarrow> (if p \<noteq> 0 then p else 0))
            in findTopParent replyMap next next)
      else Some topParentId)"

declare findTopParent.simps [code]

text \<open>
  \<open>if (!childReplies[k]) childReplies[k] = []; childReplies[k].push(reply)\<close>.
\<close>

definition pushChild :: "int \<Rightarrow> Reply \<Rightarrow> (int \<rightharpoonup> Reply list) \<Rightarrow> (int \<rightharpoonup> Reply list)" where
  "pushChild k reply children =
     children(k \<mapsto> (case children k of None \<Rightarrow> [] | Some xs \<Rightarrow> xs) @ [reply])"

text \<open>The body of the second \<open>forEach\<close>, on the pair (topLevelReplies, childReplies).\<close>

definition placeReply ::
  "(int \<rightharpoonup> Reply) \<Rightarrow> Reply \<Rightarrow> Reply list \<times> (int \<rightharpoonup> Reply list)
     \<Rightarrow> (Reply list \<times> (int \<rightharpoonup> Reply list)) option" where
  "placeReply replyMap reply acc =
     (case acc of (topLevel, children) \<Rightarrow>
        if \<not> truthy (r_parentReplyId reply)
        then Some (topLevel @ [reply], children)
        else (let parentId = the (r_parentReplyId reply) in
          if \<not> truthy (parentOf replyMap parentId)
          then Some (topLevel, pushChild parentId reply children)
          else (case findTopParent replyMap parentId parentId of
                  None \<Rightarrow> None
                | Some topParentId \<Rightarrow>
                    Some (topLevel,
                          if topParentId \<noteq> 0 then pushChild topParentId reply children
                          else children))))"

fun placeAll ::
  "(int \<rightharpoonup> Reply) \<Rightarrow> Reply list \<Rightarrow> Reply list \<times> (int \<rightharpoonup> Reply list)
     \<Rightarrow> (Reply list \<times> (int \<rightharpoonup> Reply list)) option" where
  "placeAll replyMap [] acc = Some acc"
| "placeAll replyMap (reply # rest) acc =
     (case placeReply replyMap reply acc of
        None \<Rightarrow> None
      | Some acc' \<Rightarrow> placeAll replyMap rest acc')"

record Threads =
  topLevelReplies :: "Reply list"
  childReplies :: "int \<rightharpoonup> Reply list"
  replyMap :: "int \<rightharpoonup> Reply"

text \<open>
  \<open>Array.prototype.sort\<close> with the comparator \<open>a.createdAt - b.createdAt\<close> is a stable
  ascending sort on the timestamp, which is what \<open>sort_key\<close> is.
\<close>

definition organizeRepliesIntoThreads :: "Reply list \<Rightarrow> Threads option" where
  "organizeRepliesIntoThreads replies =
     (let sortedReplies = sort_key r_createdAt replies;
          m = buildReplyMap sortedReplies
      in case placeAll m sortedReplies ([], Map.empty) of
           None \<Rightarrow> None
         | Some (topLevel, children) \<Rightarrow>
             Some \<lparr> topLevelReplies = sort_key r_createdAt topLevel,
                    childReplies = (\<lambda>k. map_option (sort_key r_createdAt) (children k)),
                    replyMap = m \<rparr>)"

text \<open>
  The parent references of a reply list, as edges from a reply's id to the id it names
  as parent (a falsy \<open>parentReplyId\<close> names none).
\<close>

definition parentEdges :: "Reply list \<Rightarrow> (int \<times> int) set" where
  "parentEdges replies =
     set (map (\<lambda>r. (r_id r, the (r_parentReplyId r)))
            (filter (\<lambda>r. truthy (r_parentReplyId r)) replies))"

text \<open>All replies of the output, bucket by bucket, as a multiset.\<close>

definition allBuckets :: "Threads \<Rightarrow> Reply multiset" where
  "allBuckets out =
     mset (topLevelReplies out)
     + (\<Sum>k \<in> dom (childReplies out). mset (the (childReplies out k)))"

text \<open>A reply with the fields the assembler reads; the others are fixed.\<close>

definition mkReply :: "int \<Rightarrow> int option \<Rightarrow> int \<Rightarrow> Reply" where
  "mkReply i parent t =
     \<lparr> r_id = i, r_content = [], r_postId = 1, r_authorId = [], r_createdAt = t,
       r_parentReplyId = parent, r_upvotes = 0, r_downvotes = 0, r_isSolution = False \<rparr>"


section \<open>Quote Composer (the quote composition of createReply)\<close>

text \<open>
  Strings are lists of characters; the composer only distinguishes \<open>@\<close>, \<open>>\<close>, the
  newline and white space.  \<open>trim()\<close> removes white space at both ends (here the ASCII
  white space: tab, line feed, vertical tab, form feed, carriage return, space).
\<close>

definition isSpace :: "char \<Rightarrow> bool" where
  "isSpace c = (c \<in> {CHR 0x09, CHR 0x0A, CHR 0x0B, CHR 0x0C, CHR 0x0D, CHR 0x20})"

definition trim :: "string \<Rightarrow> string" where
  "trim s = rev (dropWhile isSpace (rev (dropWhile isSpace s)))"

text \<open>\<open>s.split('\n')\<close>: the empty string splits into one empty line.\<close>

fun splitLines :: "string \<Rightarrow> string list" where
  "splitLines [] = [[]]"
| "splitLines (c # cs) =
     (if c = CHR 0x0A then [] # splitLines cs
      else (case splitLines cs of
              [] \<Rightarrow> [[c]]
            | l # ls \<Rightarrow> (c # l) # ls))"

text \<open>\<open>lines.join('\n')\<close>.\<close>

fun joinLines :: "string list \<Rightarrow> string" where
  "joinLines [] = []"
| "joinLines [l] = l"
| "joinLines (l # ls) = l @ [CHR 0x0A] @ joinLines ls"

text \<open>\<open>line.startsWith('>')\<close>.\<close>

definition startsWithQuote :: "string \<Rightarrow> bool" where
  "startsWithQuote line = (case line of [] \<Rightarrow> False | c # _ \<Rightarrow> c = CHR ''>'')"

text \<open>\<open>lines.findIndex(p)\<close>: the first index whose line satisfies \<open>p\<close>, or \<open>-1\<close>.\<close>

fun findIndex :: "('a \<Rightarrow> bool) \<Rightarrow> 'a list \<Rightarrow> int" where
  "findIndex p [] = -1"
| "findIndex p (x # xs) =
     (if p x then 0 else (let i = findIndex p xs in if i < 0 then -1 else i + 1))"

text \<open>
  \<open>while (quoteEndIndex + 1 < lines.length && lines[quoteEndIndex + 1].startsWith('>'))
  quoteEndIndex++\<close>.
\<close>

function findQuoteEnd :: "string list \<Rightarrow> nat \<Rightarrow> nat" where
  "findQuoteEnd lines quoteEndIndex =
     (if quoteEndIndex + 1 < length lines \<and> startsWithQuote (lines ! (quoteEndIndex + 1))
      then findQuoteEnd lines (quoteEndIndex + 1)
      else quoteEndIndex)"
  by pat_completeness auto
termination
  by (relation "measure (\<lambda>(lines, quoteEndIndex). length lines - quoteEndIndex)") auto

text \<open>
  The text that is quoted from the reply being answered: when the reply contains both
  \<open>@\<close> and \<open>>\<close> and has a line starting with \<open>>\<close>, the text after the run of \<open>>\<close> lines
  that begins at the first such line, trimmed; otherwise the reply's whole content.
\<close>

definition extractReplyText :: "string \<Rightarrow> string" where
  "extractReplyText replyText =
     (if CHR ''@'' \<in> set replyText \<and> CHR ''>'' \<in> set replyText
      then (let lines = splitLines replyText;
                quoteStartIndex = findIndex startsWithQuote lines
            in if quoteStartIndex \<ge> 0
               then (let quoteEndIndex = findQuoteEnd lines (nat quoteStartIndex)
                     in trim (joinLines (drop (quoteEndIndex + 1) lines)))
               else replyText)
      else replyText)"

text \<open>\<open>replyText.length > 100 ? replyText.substring(0, 100) + '...' : replyText\<close>.\<close>

definition quoteText :: "string \<Rightarrow> string" where
  "quoteText replyText =
     (if length replyText > 100 then take 100 replyText @ ''...'' else replyText)"

text \<open>
  \<open>finalContent\<close> of \<open>createReply\<close>.  \<open>replyTo\<close> is the reply being answered, as its id
  and the optional user name shown with it (\<open>None\<close> when the new reply answers the post);
  \<open>replies_by_id\<close> is the assembler's \<open>replyMap\<close>.
\<close>

definition finalContent ::
  "string \<Rightarrow> (int \<times> string option) option \<Rightarrow> (int \<rightharpoonup> Reply) \<Rightarrow> string" where
  "finalContent content replyTo replies_by_id =
     (case replyTo of
        None \<Rightarrow> content
      | Some (replyToId, username) \<Rightarrow>
          (case replies_by_id replyToId of
             None \<Rightarrow> content
           | Some replyObj \<Rightarrow>
               ''@'' @ (case username of
                          None \<Rightarrow> ''Unknown''
                        | Some n \<Rightarrow> (if n = [] then ''Unknown'' else n))
               @ '':\<newline>> '' @ quoteText (extractReplyText (r_content replyObj))
               @ ''\<newline>\<newline>'' @ content))"


section \<open>Storage (FirestoreStorage)\<close>

text \<open>
  A collection is the list of its documents; a document's key is its id
  (\<open>doc(id.toString())\<close>, \<open>doc(user.id)\<close>).  The store is passed in and returned.
  A thrown \<open>Error\<close> is an \<open>Inl\<close>; every throw of the storage methods happens before
  their first write.
\<close>

datatype StorageError =
    PostNotFound | ReplyNotFound | VoteNotFound | UserNotFound
  | Unauthorized | ReplyNotInPost | VoteTargetMissing | PostIdRequired

record Store =
  s_users :: "User list"
  s_posts :: "Post list"
  s_replies :: "Reply list"
  s_votes :: "Vote list"

definition emptyStore :: Store where
  "emptyStore = \<lparr> s_users = [], s_posts = [], s_replies = [], s_votes = [] \<rparr>"

text \<open>\<open>doc(i).get()\<close>, \<open>doc(i).set(d)\<close>, \<open>doc(i).update(f)\<close>, \<open>doc(i).delete()\<close>.\<close>

definition docGet :: "('d \<Rightarrow> 'k) \<Rightarrow> 'k \<Rightarrow> 'd list \<Rightarrow> 'd option" where
  "docGet key i ds = find (\<lambda>d. key d = i) ds"

definition docSet :: "('d \<Rightarrow> 'k) \<Rightarrow> 'd \<Rightarrow> 'd list \<Rightarrow> 'd list" where
  "docSet key d ds =
     (if key d \<in> key ` set ds then map (\<lambda>x. if key x = key d then d else x) ds
      else ds @ [d])"

definition docUpdate :: "('d \<Rightarrow> 'k) \<Rightarrow> 'k \<Rightarrow> ('d \<Rightarrow> 'd) \<Rightarrow> 'd list \<Rightarrow> 'd list" where
  "docUpdate key i f ds = map (\<lambda>d. if key d = i then f d else d) ds"

definition docDelete :: "('d \<Rightarrow> 'k) \<Rightarrow> 'k \<Rightarrow> 'd list \<Rightarrow> 'd list" where
  "docDelete key i ds = filter (\<lambda>d. key d \<noteq> i) ds"

text \<open>\<open>snapshot.docs.forEach(doc => batch.delete(doc.ref))\<close>.\<close>

definition batchDelete :: "('d \<Rightarrow> 'k) \<Rightarrow> 'd list \<Rightarrow> 'd list \<Rightarrow> 'd list" where
  "batchDelete key snapshot ds = fold (\<lambda>d. docDelete key (key d)) snapshot ds"

text \<open>
  \<open>orderBy('id', 'desc').limit(1)\<close> and \<open>(last.id || 0) + 1\<close>: one more than the
  greatest id of the collection, 1 for the empty collection.
\<close>

definition nextId :: "('d \<Rightarrow> int) \<Rightarrow> 'd list \<Rightarrow> int" where
  "nextId key ds =
     (let lastId = (case ds of [] \<Rightarrow> 0 | d # ds' \<Rightarrow> fold max (map key ds') (key d))
      in (if lastId \<noteq> 0 then lastId else 0) + 1)"

definition getUser :: "string \<Rightarrow> Store \<Rightarrow> User option" where
  "getUser i s = docGet u_id i (s_users s)"

definition getUserByUsername :: "string \<Rightarrow> Store \<Rightarrow> User option" where
  "getUserByUsername username s = find (\<lambda>u. u_username u = username) (s_users s)"

definition createUser :: "User \<Rightarrow> Store \<Rightarrow> User \<times> Store" where
  "createUser user s = (user, s\<lparr> s_users := docSet u_id user (s_users s) \<rparr>)"

definition updateUsername :: "string \<Rightarrow> string \<Rightarrow> Store \<Rightarrow> StorageError + User \<times> Store" where
  "updateUsername userId username s =
     (case docGet u_id userId (s_users s) of
        None \<Rightarrow> Inl UserNotFound
      | Some user \<Rightarrow>
          Inr (user\<lparr> u_username := username \<rparr>,
               s\<lparr> s_users := docUpdate u_id userId (\<lambda>u. u\<lparr> u_username := username \<rparr>) (s_users s) \<rparr>))"

definition getPost :: "int \<Rightarrow> Store \<Rightarrow> Post option" where
  "getPost i s = docGet p_id i (s_posts s)"

definition getReply :: "int \<Rightarrow> Store \<Rightarrow> Reply option" where
  "getReply i s = docGet r_id i (s_replies s)"

text \<open>\<open>createPost\<close>; \<open>now\<close> is the value of \<open>new Date()\<close>.\<close>

definition createPost ::
  "string \<Rightarrow> string \<Rightarrow> string \<Rightarrow> string \<Rightarrow> int \<Rightarrow> Store \<Rightarrow> Post \<times> Store" where
  "createPost title content category authorId now s =
     (let newPost = \<lparr> p_id = nextId p_id (s_posts s), p_title = title, p_content = content,
                      p_category = category, p_authorId = authorId, p_createdAt = now,
                      p_upvotes = 0, p_downvotes = 0, p_solutionId = None \<rparr>
      in (newPost, s\<lparr> s_posts := docSet p_id newPost (s_posts s) \<rparr>))"

definition createReply ::
  "string \<Rightarrow> int \<Rightarrow> int option \<Rightarrow> string \<Rightarrow> int \<Rightarrow> Store \<Rightarrow> StorageError + Reply \<times> Store" where
  "createReply content postId parentReplyId authorId now s =
     (if postId = 0 then Inl PostIdRequired
      else (let newReply = \<lparr> r_id = nextId r_id (s_replies s), r_content = content,
                              r_postId = postId, r_authorId = authorId, r_createdAt = now,
                              r_parentReplyId = (if truthy parentReplyId then parentReplyId else None),
                              r_upvotes = 0, r_downvotes = 0, r_isSolution = False \<rparr>
            in Inr (newReply, s\<lparr> s_replies := docSet r_id newReply (s_replies s) \<rparr>)))"

definition deletePost :: "int \<Rightarrow> string \<Rightarrow> Store \<Rightarrow> StorageError + Store" where
  "deletePost i authorId s =
     (case getPost i s of
        None \<Rightarrow> Inl PostNotFound
      | Some post \<Rightarrow>
          if p_authorId post \<noteq> authorId then Inl Unauthorized
          else (let repliesSnapshot = filter (\<lambda>r. r_postId r = i) (s_replies s);
                    votesSnapshot = filter (\<lambda>v. v_postId v = Some i) (s_votes s)
                in Inr (s\<lparr> s_replies := batchDelete r_id repliesSnapshot (s_replies s),
                           s_votes := batchDelete v_id votesSnapshot (s_votes s),
                           s_posts := docDelete p_id i (s_posts s) \<rparr>)))"

definition deleteReply :: "int \<Rightarrow> string \<Rightarrow> Store \<Rightarrow> StorageError + Store" where
  "deleteReply i authorId s =
     (case getReply i s of
        None \<Rightarrow> Inl ReplyNotFound
      | Some reply \<Rightarrow>
          if r_authorId reply \<noteq> authorId then Inl Unauthorized
          else (let s1 = (if r_postId reply \<noteq> 0
                          then (case getPost (r_postId reply) s of
                                  None \<Rightarrow> s
                                | Some post \<Rightarrow>
                                    if p_solutionId post = Some i
                                    then s\<lparr> s_posts := docUpdate p_id (r_postId reply)
                                                (\<lambda>p. p\<lparr> p_solutionId := None \<rparr>) (s_posts s) \<rparr>
                                    else s)
                          else s);
                    votesSnapshot = filter (\<lambda>v. v_replyId v = Some i) (s_votes s1)
                in Inr (s1\<lparr> s_votes := batchDelete v_id votesSnapshot (s_votes s1),
                            s_replies := docDelete r_id i (s_replies s1) \<rparr>)))"

text \<open>
  \<open>getVote\<close>: a vote of the user on the target (\<open>limit(1)\<close>), the post when \<open>postId\<close>
  is truthy, else the reply when \<open>replyId\<close> is truthy, else an error.  Which document
  \<open>limit(1)\<close> returns when several match is the database's choice; here it is the first
  of the list (\<open>createVote\<close> inserts a vote only when the query finds none).
\<close>

definition getVote ::
  "string \<Rightarrow> int option \<Rightarrow> int option \<Rightarrow> Store \<Rightarrow> StorageError + Vote option" where
  "getVote userId postId replyId s =
     (if truthy postId
      then Inr (find (\<lambda>v. v_userId v = userId \<and> v_postId v = postId) (s_votes s))
      else if truthy replyId
      then Inr (find (\<lambda>v. v_userId v = userId \<and> v_replyId v = replyId) (s_votes s))
      else Inl VoteTargetMissing)"

text \<open>The counter writes of the vote methods: \<open>update({upvotes: n})\<close> or \<open>update({downvotes: n})\<close>.\<close>

definition setPostCounter :: "VoteType \<Rightarrow> int \<Rightarrow> Post \<Rightarrow> Post" where
  "setPostCounter t n p = (if t = upvote then p\<lparr> p_upvotes := n \<rparr> else p\<lparr> p_downvotes := n \<rparr>)"

definition setReplyCounter :: "VoteType \<Rightarrow> int \<Rightarrow> Reply \<Rightarrow> Reply" where
  "setReplyCounter t n r = (if t = upvote then r\<lparr> r_upvotes := n \<rparr> else r\<lparr> r_downvotes := n \<rparr>)"

definition postCounter :: "VoteType \<Rightarrow> Post \<Rightarrow> int" where
  "postCounter t p = (if t = upvote then p_upvotes p else p_downvotes p)"

definition replyCounter :: "VoteType \<Rightarrow> Reply \<Rightarrow> int" where
  "replyCounter t r = (if t = upvote then r_upvotes r else r_downvotes r)"

definition updateVote :: "int \<Rightarrow> VoteType \<Rightarrow> Store \<Rightarrow> StorageError + Vote \<times> Store" where
  "updateVote voteId voteType s =
     (case docGet v_id voteId (s_votes s) of
        None \<Rightarrow> Inl VoteNotFound
      | Some vote \<Rightarrow>
          (let s1 =
             (if v_voteType vote \<noteq> voteType
              then (if truthy (v_postId vote)
                    then (case getPost (the (v_postId vote)) s of
                            None \<Rightarrow> s
                          | Some post \<Rightarrow>
                              s\<lparr> s_posts :=
                                   docUpdate p_id (the (v_postId vote))
                                     (setPostCounter voteType (postCounter voteType post + 1))
                                     (docUpdate p_id (the (v_postId vote))
                                        (setPostCounter (v_voteType vote)
                                           (max 0 (postCounter (v_voteType vote) post - 1)))
                                        (s_posts s)) \<rparr>)
                    else if truthy (v_replyId vote)
                    then (case getReply (the (v_replyId vote)) s of
                            None \<Rightarrow> s
                          | Some reply \<Rightarrow>
                              s\<lparr> s_replies :=
                                   docUpdate r_id (the (v_replyId vote))
                                     (setReplyCounter voteType (replyCounter voteType reply + 1))
                                     (docUpdate r_id (the (v_replyId vote))
                                        (setReplyCounter (v_voteType vote)
                                           (max 0 (replyCounter (v_voteType vote) reply - 1)))
                                        (s_replies s)) \<rparr>)
                    else s)
              else s)
           in Inr (vote\<lparr> v_voteType := voteType \<rparr>,
                   s1\<lparr> s_votes := docUpdate v_id voteId (\<lambda>v. v\<lparr> v_voteType := voteType \<rparr>)
                                     (s_votes s1) \<rparr>)))"

definition createVote ::
  "string \<Rightarrow> int option \<Rightarrow> int option \<Rightarrow> VoteType \<Rightarrow> Store \<Rightarrow> StorageError + Vote \<times> Store" where
  "createVote userId postId replyId voteType s =
     (case getVote userId postId replyId s of
        Inl e \<Rightarrow> Inl e
      | Inr (Some existingVote) \<Rightarrow>
          if v_voteType existingVote \<noteq> voteType
          then updateVote (v_id existingVote) voteType s
          else Inr (existingVote, s)
      | Inr None \<Rightarrow>
          (let newVote = \<lparr> v_id = nextId v_id (s_votes s), v_userId = userId,
                           v_postId = (if truthy postId then postId else None),
                           v_replyId = (if truthy replyId then replyId else None),
                           v_voteType = voteType \<rparr>;
               s1 = s\<lparr> s_votes := docSet v_id newVote (s_votes s) \<rparr>;
               s2 = (if truthy postId
                     then (case getPost (the postId) s1 of
                             None \<Rightarrow> s1
                           | Some post \<Rightarrow>
                               s1\<lparr> s_posts := docUpdate p_id (the postId)
                                      (setPostCounter voteType (postCounter voteType post + 1))
                                      (s_posts s1) \<rparr>)
                     else if truthy replyId
                     then (case getReply (the replyId) s1 of
                             None \<Rightarrow> s1
                           | Some reply \<Rightarrow>
                               s1\<lparr> s_replies := docUpdate r_id (the replyId)
                                      (setReplyCounter voteType (replyCounter voteType reply + 1))
                                      (s_replies s1) \<rparr>)
                     else s1)
           in Inr (newVote, s2)))"

definition markAsSolution :: "int \<Rightarrow> int \<Rightarrow> Store \<Rightarrow> StorageError + Store" where
  "markAsSolution postId replyId s =
     (case getPost postId s of
        None \<Rightarrow> Inl PostNotFound
      | Some post \<Rightarrow>
          (case getReply replyId s of
             None \<Rightarrow> Inl ReplyNotInPost
           | Some reply \<Rightarrow>
               if r_postId reply \<noteq> postId then Inl ReplyNotInPost
               else (let s1 = (if truthy (p_solutionId post)
                               then (case getReply (the (p_solutionId post)) s of
                                       None \<Rightarrow> s
                                     | Some oldSolutionReply \<Rightarrow>
                                         s\<lparr> s_replies := docUpdate r_id (r_id oldSolutionReply)
                                                (\<lambda>r. r\<lparr> r_isSolution := False \<rparr>) (s_replies s) \<rparr>)
                               else s);
                         s2 = s1\<lparr> s_replies := docUpdate r_id replyId
                                     (\<lambda>r. r\<lparr> r_isSolution := True \<rparr>) (s_replies s1) \<rparr>
                     in Inr (s2\<lparr> s_posts := docUpdate p_id postId
                                     (\<lambda>p. p\<lparr> p_solutionId := Some replyId \<rparr>) (s_posts s2) \<rparr>))))"

definition removeSolution :: "int \<Rightarrow> Store \<Rightarrow> StorageError + Store" where
  "removeSolution postId s =
     (case getPost postId s of
        None \<Rightarrow> Inl PostNotFound
      | Some post \<Rightarrow>
          if truthy (p_solutionId post)
          then (let s1 = (case getReply (the (p_solutionId post)) s of
                            None \<Rightarrow> s
                          | Some solutionReply \<Rightarrow>
                              s\<lparr> s_replies := docUpdate r_id (r_id solutionReply)
                                     (\<lambda>r. r\<lparr> r_isSolution := False \<rparr>) (s_replies s) \<rparr>)
                in Inr (s1\<lparr> s_posts := docUpdate p_id postId
                                (\<lambda>p. p\<lparr> p_solutionId := None \<rparr>) (s_posts s1) \<rparr>))
          else Inr s)"


section \<open>User routes (server/routes.ts)\<close>

text \<open>
  \<open>POST /api/users\<close> and \<open>PATCH /api/users/:id/username\<close>, as the HTTP status and the
  store after the request.
\<close>

definition postUser :: "User \<Rightarrow> Store \<Rightarrow> nat \<times> Store" where
  "postUser body s = (200, snd (createUser body s))"

definition patchUsername :: "string \<Rightarrow> string \<Rightarrow> Store \<Rightarrow> nat \<times> Store" where
  "patchUsername userId username s =
     (if length username < 3 \<or> length username > 30 then (400, s)
      else (case getUserByUsername username s of
              Some existing \<Rightarrow> (400, s)
            | None \<Rightarrow>
                (case updateUsername userId username s of
                   Inl e \<Rightarrow> (400, s)
                 | Inr (user, s') \<Rightarrow> (200, s'))))"


section \<open>Sequences of storage operations\<close>

text \<open>
  The mutating operations of the storage as values, and their effect on the store.
  An operation that throws leaves the store as it was.
\<close>

datatype Op =
    CreateUser User
  | UpdateUsername string string
  | CreatePost string string string string int
  | DeletePost int string
  | CreateReply string int "int option" string int
  | DeleteReply int string
  | CreateVote string "int option" "int option" VoteType
  | MarkAsSolution int int
  | RemoveSolution int

definition orElse :: "StorageError + Store \<Rightarrow> Store \<Rightarrow> Store" where
  "orElse res s = (case res of Inl e \<Rightarrow> s | Inr s' \<Rightarrow> s')"

fun applyOp :: "Op \<Rightarrow> Store \<Rightarrow> Store" where
  "applyOp (CreateUser user) s = snd (createUser user s)"
| "applyOp (UpdateUsername userId username) s =
     orElse (map_sum id snd (updateUsername userId username s)) s"
| "applyOp (CreatePost title content category authorId now) s =
     snd (createPost title content category authorId now s)"
| "applyOp (DeletePost i authorId) s = orElse (deletePost i authorId s) s"
| "applyOp (CreateReply content postId parentReplyId authorId now) s =
     orElse (map_sum id snd (createReply content postId parentReplyId authorId now s)) s"
| "applyOp (DeleteReply i authorId) s = orElse (deleteReply i authorId s) s"
| "applyOp (CreateVote userId postId replyId voteType) s =
     orElse (map_sum id snd (createVote userId postId replyId voteType s)) s"
| "applyOp (MarkAsSolution postId replyId) s = orElse (markAsSolution postId replyId s) s"
| "applyOp (RemoveSolution postId) s = orElse (removeSolution postId s) s"

definition run :: "Op list \<Rightarrow> Store \<Rightarrow> Store" where
  "run ops s = fold applyOp ops s"


section \<open>Thread Assembler: auxiliary notions and concrete reply lists\<close>

text \<open>
  Auxiliary notions for the proofs: the parent edges as the chase reads them from
  \<open>replyMap\<close>, the children buckets as one multiset, and a bucket read with the
  missing key as the empty list.
\<close>

definition mapEdges :: "(int \<rightharpoonup> Reply) \<Rightarrow> (int \<times> int) set" where
  "mapEdges m = {(i, p). parentOf m i = Some p \<and> p \<noteq> 0}"

definition bucketsMset :: "(int \<rightharpoonup> Reply list) \<Rightarrow> Reply multiset" where
  "bucketsMset ch = (\<Sum>k \<in> dom ch. mset (the (ch k)))"

definition bucket :: "(int \<rightharpoonup> Reply list) \<Rightarrow> int \<Rightarrow> Reply list" where
  "bucket ch k = (case ch k of None \<Rightarrow> [] | Some xs \<Rightarrow> xs)"


text \<open>Concrete reply lists used below.\<close>

definition threadExample :: "Reply list" where
  "threadExample = [mkReply 1 None 1, mkReply 2 (Some 1) 2, mkReply 3 (Some 2) 3]"

definition unsortedExample :: "Reply list" where
  "unsortedExample = [mkReply 3 (Some 1) 30, mkReply 2 (Some 1) 20, mkReply 1 None 10]"

definition orphanExample :: "Reply list" where
  "orphanExample = [mkReply 1 (Some 5) 1]"

definition selfParentExample :: "Reply list" where
  "selfParentExample = [mkReply 1 (Some 1) 1]"

definition mutualParentExample :: "Reply list" where
  "mutualParentExample = [mkReply 1 (Some 2) 1, mkReply 2 (Some 1) 2]"

section \<open>Solution Marker: the invariant\<close>

text \<open>
  The claimed property of a store: among the replies of a post at most one has
  \<open>isSolution\<close> set, and it is the one the post's \<open>solutionId\<close> references.
\<close>

definition atMostOneSolution :: "Store \<Rightarrow> bool" where
  "atMostOneSolution s \<longleftrightarrow>
     (\<forall>p \<in> set (s_posts s). \<forall>r \<in> set (s_replies s). \<forall>r' \<in> set (s_replies s).
        r_postId r = p_id p \<and> r_isSolution r \<and> r_postId r' = p_id p \<and> r_isSolution r'
        \<longrightarrow> r = r' \<and> p_solutionId p = Some (r_id r))"

text \<open>
  The invariant that the operations maintain and from which the property follows:
  post ids and reply ids are unique, reply ids are positive, and every reply with
  \<open>isSolution\<close> set belongs to a stored post whose \<open>solutionId\<close> is that reply's id.
\<close>

definition solutionInv :: "Store \<Rightarrow> bool" where
  "solutionInv s \<longleftrightarrow>
     distinct (map p_id (s_posts s)) \<and> distinct (map r_id (s_replies s))
     \<and> (\<forall>r \<in> set (s_replies s). 0 < r_id r)
     \<and> (\<forall>r \<in> set (s_replies s). r_isSolution r \<longrightarrow>
           (\<exists>p \<in> set (s_posts s). p_id p = r_postId r \<and> p_solutionId p = Some (r_id r)))"


section \<open>Concrete stores\<close>

text \<open>
  A post by alice with a reply by carol; bob has upvoted the reply and dave the post.
\<close>

definition votedReplyOps :: "Op list" where
  "votedReplyOps =
     [CreatePost ''title'' ''body'' ''software'' ''alice'' 1,
      CreateReply ''answer'' 1 None ''carol'' 2,
      CreateVote ''bob'' None (Some 1) upvote,
      CreateVote ''dave'' (Some 1) None upvote]"

definition votedReplyStore :: Store where
  "votedReplyStore = run votedReplyOps emptyStore"

text \<open>
  A reply is upvoted by bob, its post is deleted, and a new post and a new reply are
  created: the new reply gets the id 1 again and starts with both counters at 0, while
  bob's upvote on reply 1 is still stored.
\<close>

definition driftOps :: "Op list" where
  "driftOps =
     [CreatePost ''title'' ''body'' ''software'' ''alice'' 1,
      CreateReply ''answer'' 1 None ''carol'' 2,
      CreateVote ''bob'' None (Some 1) upvote,
      DeletePost 1 ''alice'',
      CreatePost ''title2'' ''body2'' ''software'' ''alice'' 3,
      CreateReply ''answer2'' 1 None ''dave'' 4]"

definition driftStore :: Store where
  "driftStore = run driftOps emptyStore"

text \<open>A post with two replies, the first of them marked as the solution.\<close>

definition solutionOps :: "Op list" where
  "solutionOps =
     [CreatePost ''title'' ''body'' ''software'' ''alice'' 1,
      CreateReply ''first'' 1 None ''carol'' 2,
      CreateReply ''second'' 1 None ''dave'' 3,
      MarkAsSolution 1 1]"

definition solutionStore :: Store where
  "solutionStore = run solutionOps emptyStore"

text \<open>Two sign-ups that were given the same generated user name.\<close>

definition firstUser :: User where
  "firstUser = \<lparr> u_id = ''uid1'', u_username = ''QuickRedFox'', u_email = ''a@example.org'' \<rparr>"

definition secondUser :: User where
  "secondUser = \<lparr> u_id = ''uid2'', u_username = ''QuickRedFox'', u_email = ''b@example.org'' \<rparr>"

text \<open>A two-line reply of alice.\<close>

definition twoLineReply :: Reply where
  "twoLineReply = (mkReply 1 None 1)\<lparr> r_content := ''hello\<newline>world'', r_authorId := ''alice'' \<rparr>"

text \<open>The documents of \<open>votedReplyStore\<close>, and the solved thread with a vote on its solution.\<close>

definition bobUpvote :: Vote where
  "bobUpvote = \<lparr> v_id = 1, v_userId = ''bob'', v_postId = None, v_replyId = Some 1,
                  v_voteType = upvote \<rparr>"

definition carolReply :: Reply where
  "carolReply = \<lparr> r_id = 1, r_content = ''answer'', r_postId = 1, r_authorId = ''carol'',
                   r_createdAt = 2, r_parentReplyId = None, r_upvotes = 1, r_downvotes = 0,
                   r_isSolution = False \<rparr>"

definition alicePost :: Post where
  "alicePost = \<lparr> p_id = 1, p_title = ''title'', p_content = ''body'', p_category = ''software'',
                  p_authorId = ''alice'', p_createdAt = 1, p_upvotes = 1, p_downvotes = 0,
                  p_solutionId = None \<rparr>"

definition solvedVotedStore :: Store where
  "solvedVotedStore = run (solutionOps @ [CreateVote ''bob'' None (Some 1) upvote]) emptyStore"



section \<open>Thread Assembler: proofs\<close>


lemma parentEdges_eq:
  "parentEdges replies =
     {(r_id r, p) | r p. r \<in> set replies \<and> r_parentReplyId r = Some p \<and> p \<noteq> 0}"
  by (auto simp: parentEdges_def truthy_def image_iff split: option.splits)

lemma buildReplyMap_fold_Some:
  "fold (\<lambda>reply m. m(r_id reply \<mapsto> reply)) xs m0 i = Some r \<Longrightarrow>
     (r \<in> set xs \<and> r_id r = i) \<or> m0 i = Some r"
  by (induction xs arbitrary: m0) (fastforce split: if_splits)+

lemma buildReplyMap_Some: "buildReplyMap xs i = Some r \<Longrightarrow> r \<in> set xs \<and> r_id r = i"
  using buildReplyMap_fold_Some [of xs Map.empty i r] by (simp add: buildReplyMap_def)

lemma buildReplyMap_fold_dom:
  "dom (fold (\<lambda>reply m. m(r_id reply \<mapsto> reply)) xs m0) = dom m0 \<union> r_id ` set xs"
  by (induction xs arbitrary: m0) auto

lemma dom_buildReplyMap: "dom (buildReplyMap xs) = r_id ` set xs"
  by (simp add: buildReplyMap_def buildReplyMap_fold_dom)

lemma mapEdges_subset: "mapEdges (buildReplyMap xs) \<subseteq> parentEdges xs"
  by (auto simp: mapEdges_def parentEdges_eq parentOf_def split: option.splits
           dest!: buildReplyMap_Some)

lemma finite_parentEdges: "finite (parentEdges xs)"
proof -
  have "parentEdges xs \<subseteq> (\<lambda>r. (r_id r, the (r_parentReplyId r))) ` set xs"
    by (force simp: parentEdges_eq)
  then show ?thesis by (rule finite_surj [rotated]) simp
qed

lemma parentEdges_sort: "parentEdges (sort_key f xs) = parentEdges xs"
  by (simp add: parentEdges_eq)

lemma wf_mapEdges:
  assumes "acyclic (parentEdges xs)"
  shows "wf ((mapEdges (buildReplyMap (sort_key f xs)))\<inverse>)"
proof -
  have sub: "mapEdges (buildReplyMap (sort_key f xs)) \<subseteq> parentEdges xs"
    using mapEdges_subset [of "sort_key f xs"] by (simp add: parentEdges_sort)
  have "finite (mapEdges (buildReplyMap (sort_key f xs)))"
    using sub finite_parentEdges by (rule finite_subset)
  moreover have "acyclic (mapEdges (buildReplyMap (sort_key f xs)))"
    using assms sub by (rule acyclic_subset)
  ultimately show ?thesis by (rule finite_acyclic_wf_converse)
qed

lemma findTopParent_terminates:
  assumes "wf ((mapEdges m)\<inverse>)"
  shows "\<exists>t. findTopParent m c t0 = Some t"
  using assms
proof (induction c arbitrary: t0 rule: wf_induct_rule [OF assms])
  case (1 c)
  show ?case
  proof (cases "c \<noteq> 0 \<and> truthy (parentOf m c)")
    case False
    then show ?thesis by (subst findTopParent.simps) auto
  next
    case True
    then obtain p where p: "parentOf m c = Some p" "p \<noteq> 0"
      by (auto simp: truthy_def split: option.splits)
    then have "(p, c) \<in> (mapEdges m)\<inverse>" by (simp add: mapEdges_def)
    from "1.IH" [OF this "1.prems"] obtain t where "findTopParent m p p = Some t" by blast
    with True p show ?thesis by (subst findTopParent.simps) simp
  qed
qed

lemma findTopParent_nonzero:
  "findTopParent m c t0 = Some t \<Longrightarrow> t0 \<noteq> 0 \<Longrightarrow> t \<noteq> 0"
proof (induction arbitrary: rule: findTopParent.raw_induct [rotated 1, consumes 1])
  case (1 f m c t0 t)
  then show ?case
    by (auto simp: truthy_def Let_def split: if_splits option.splits)
qed


lemma bucketsMset_pushChild:
  assumes "finite (dom ch)"
  shows "bucketsMset (pushChild k r ch) = bucketsMset ch + {#r#}"
proof (cases "ch k")
  case None
  then have "k \<notin> dom ch" by auto
  moreover have "dom (pushChild k r ch) = insert k (dom ch)"
    by (simp add: pushChild_def)
  moreover have "(\<Sum>j \<in> dom ch. mset (the (pushChild k r ch j))) = (\<Sum>j \<in> dom ch. mset (the (ch j)))"
    using \<open>k \<notin> dom ch\<close> by (intro sum.cong) (auto simp: pushChild_def)
  ultimately show ?thesis
    using assms None by (simp add: bucketsMset_def sum.insert) (simp add: pushChild_def)
next
  case (Some xs)
  then have k: "k \<in> dom ch" by auto
  have d: "dom (pushChild k r ch) = dom ch"
    using k by (auto simp: pushChild_def)
  have "bucketsMset (pushChild k r ch)
          = mset (the (pushChild k r ch k)) + (\<Sum>j \<in> dom ch - {k}. mset (the (pushChild k r ch j)))"
    unfolding bucketsMset_def d using assms k by (rule sum.remove)
  also have "(\<Sum>j \<in> dom ch - {k}. mset (the (pushChild k r ch j)))
               = (\<Sum>j \<in> dom ch - {k}. mset (the (ch j)))"
    by (rule sum.cong) (auto simp: pushChild_def)
  also have "mset (the (pushChild k r ch k)) = mset (the (ch k)) + {#r#}"
    using Some by (simp add: pushChild_def)
  finally have "bucketsMset (pushChild k r ch)
      = (mset (the (ch k)) + (\<Sum>j \<in> dom ch - {k}. mset (the (ch j)))) + {#r#}"
    by (simp add: ac_simps)
  moreover have "bucketsMset ch = mset (the (ch k)) + (\<Sum>j \<in> dom ch - {k}. mset (the (ch j)))"
    unfolding bucketsMset_def using assms k by (rule sum.remove)
  ultimately show ?thesis by simp
qed

lemma finite_dom_pushChild: "finite (dom ch) \<Longrightarrow> finite (dom (pushChild k r ch))"
  by (simp add: pushChild_def)

lemma placeReply_partition:
  assumes "placeReply m r (tp, ch) = Some (tp', ch')" and "finite (dom ch)"
  shows "finite (dom ch') \<and> mset tp' + bucketsMset ch' = mset tp + bucketsMset ch + {#r#}"
proof (cases "truthy (r_parentReplyId r)")
  case False
  with assms show ?thesis by (auto simp: placeReply_def)
next
  case True
  then obtain p where p: "r_parentReplyId r = Some p" "p \<noteq> 0"
    by (auto simp: truthy_def split: option.splits)
  show ?thesis
  proof (cases "truthy (parentOf m p)")
    case False
    with assms True p show ?thesis
      by (auto simp: placeReply_def bucketsMset_pushChild finite_dom_pushChild)
  next
    case pt: True
    with assms True p obtain t where t: "findTopParent m p p = Some t"
      by (auto simp: placeReply_def split: option.splits)
    with p have "t \<noteq> 0" by (auto dest: findTopParent_nonzero)
    with assms True p pt t show ?thesis
      by (auto simp: placeReply_def bucketsMset_pushChild finite_dom_pushChild)
  qed
qed

lemma placeAll_partition:
  "placeAll m rs (tp, ch) = Some (tp', ch') \<Longrightarrow> finite (dom ch) \<Longrightarrow>
     finite (dom ch') \<and> mset tp' + bucketsMset ch' = mset tp + bucketsMset ch + mset rs"
proof (induction rs arbitrary: tp ch)
  case Nil
  then show ?case by simp
next
  case (Cons r rs)
  from Cons.prems(1) obtain tp1 ch1 where
    s1: "placeReply m r (tp, ch) = Some (tp1, ch1)" and
    s2: "placeAll m rs (tp1, ch1) = Some (tp', ch')"
    by (auto split: option.splits)
  from placeReply_partition [OF s1 Cons.prems(2)]
  have f1: "finite (dom ch1)" and e1: "mset tp1 + bucketsMset ch1 = mset tp + bucketsMset ch + {#r#}"
    by auto
  from Cons.IH [OF s2 f1] e1 show ?case by (simp add: ac_simps)
qed

lemma bucketsMset_sorted:
  "bucketsMset (\<lambda>k. map_option (sort_key f) (ch k)) = bucketsMset ch"
proof -
  have d: "dom (\<lambda>k. map_option (sort_key f) (ch k)) = dom ch"
    by (auto simp: dom_def)
  show ?thesis unfolding bucketsMset_def d
    by (rule sum.cong) auto
qed

lemma organize_partition:
  assumes "organizeRepliesIntoThreads rs = Some out"
  shows "finite (dom (childReplies out)) \<and> allBuckets out = mset rs"
proof -
  let ?s = "sort_key r_createdAt rs"
  from assms obtain tp ch where
    pa: "placeAll (buildReplyMap ?s) ?s ([], Map.empty) = Some (tp, ch)" and
    out: "out = \<lparr> topLevelReplies = sort_key r_createdAt tp,
                  childReplies = (\<lambda>k. map_option (sort_key r_createdAt) (ch k)),
                  replyMap = buildReplyMap ?s \<rparr>"
    by (auto simp: organizeRepliesIntoThreads_def Let_def split: option.splits)
  from placeAll_partition [OF pa] have
    f: "finite (dom ch)" and e: "mset tp + bucketsMset ch = mset rs"
    by (auto simp: bucketsMset_def)
  have d: "dom (\<lambda>k. map_option (sort_key r_createdAt) (ch k)) = dom ch"
    by (auto simp: dom_def)
  have "allBuckets out = mset tp + bucketsMset (\<lambda>k. map_option (sort_key r_createdAt) (ch k))"
    by (simp add: allBuckets_def out bucketsMset_def)
  with e f d show ?thesis by (simp add: bucketsMset_sorted out)
qed

lemma placeReply_terminates:
  assumes "wf ((mapEdges m)\<inverse>)"
  shows "\<exists>acc'. placeReply m r acc = Some acc'"
proof -
  obtain tp ch where acc: "acc = (tp, ch)" by (cases acc)
  from findTopParent_terminates [OF assms] obtain t where
    "findTopParent m (the (r_parentReplyId r)) (the (r_parentReplyId r)) = Some t" by blast
  then show ?thesis by (simp add: placeReply_def acc Let_def)
qed

lemma placeAll_terminates:
  assumes "wf ((mapEdges m)\<inverse>)"
  shows "\<exists>acc'. placeAll m rs acc = Some acc'"
proof (induction rs arbitrary: acc)
  case Nil
  show ?case by simp
next
  case (Cons r rs)
  from placeReply_terminates [OF assms] obtain a where "placeReply m r acc = Some a" by blast
  with Cons.IH [of a] show ?case by simp
qed

lemma organize_terminates:
  assumes "acyclic (parentEdges rs)"
  shows "\<exists>out. organizeRepliesIntoThreads rs = Some out"
proof -
  let ?s = "sort_key r_createdAt rs"
  from placeAll_terminates [OF wf_mapEdges [OF assms]] obtain acc where
    "placeAll (buildReplyMap ?s) ?s ([], Map.empty) = Some acc" by blast
  then show ?thesis
    by (cases acc) (simp add: organizeRepliesIntoThreads_def Let_def)
qed


lemma bucket_pushChild:
  "bucket (pushChild k r ch) j = (if j = k then bucket ch k @ [r] else bucket ch j)"
  by (simp add: bucket_def pushChild_def)

lemma placeReply_mono:
  assumes "placeReply m r (tp, ch) = Some (tp', ch')"
  shows "set tp \<subseteq> set tp' \<and> (\<forall>k. set (bucket ch k) \<subseteq> set (bucket ch' k))
         \<and> (\<forall>x \<in> set tp'. x \<in> set tp \<or> \<not> truthy (r_parentReplyId x))"
  using assms
  by (auto simp: placeReply_def Let_def bucket_pushChild split: if_splits option.splits)

lemma placeAll_mono:
  "placeAll m rs (tp, ch) = Some (tp', ch') \<Longrightarrow>
     set tp \<subseteq> set tp' \<and> (\<forall>k. set (bucket ch k) \<subseteq> set (bucket ch' k))
     \<and> (\<forall>x \<in> set tp'. x \<in> set tp \<or> \<not> truthy (r_parentReplyId x))"
proof (induction rs arbitrary: tp ch)
  case Nil
  then show ?case by simp
next
  case (Cons r rs)
  from Cons.prems obtain tp1 ch1 where
    s1: "placeReply m r (tp, ch) = Some (tp1, ch1)" and
    s2: "placeAll m rs (tp1, ch1) = Some (tp', ch')"
    by (auto split: option.splits)
  from placeReply_mono [OF s1] Cons.IH [OF s2] show ?case by blast
qed

lemma placeAll_direct:
  "placeAll m rs (tp, ch) = Some (tp', ch') \<Longrightarrow> r \<in> set rs \<Longrightarrow>
   r_parentReplyId r = Some p \<Longrightarrow> p \<noteq> 0 \<Longrightarrow> \<not> truthy (parentOf m p) \<Longrightarrow>
     r \<in> set (bucket ch' p)"
proof (induction rs arbitrary: tp ch)
  case Nil
  then show ?case by simp
next
  case (Cons x rs)
  from Cons.prems(1) obtain tp1 ch1 where
    s1: "placeReply m x (tp, ch) = Some (tp1, ch1)" and
    s2: "placeAll m rs (tp1, ch1) = Some (tp', ch')"
    by (auto split: option.splits)
  show ?case
  proof (cases "r \<in> set rs")
    case True
    from Cons.IH [OF s2 True Cons.prems(3-5)] show ?thesis .
  next
    case False
    with Cons.prems(2) have "x = r" by simp
    with s1 Cons.prems(3-5) have "ch1 = pushChild p r ch"
      by (simp add: placeReply_def truthy_def)
    then have "r \<in> set (bucket ch1 p)" by (simp add: bucket_pushChild)
    with placeAll_mono [OF s2] show ?thesis by blast
  qed
qed

lemma organize_missing_parent:
  assumes "organizeRepliesIntoThreads rs = Some out"
    and "r \<in> set rs" and "r_parentReplyId r = Some p" and "p \<noteq> 0"
    and "p \<notin> r_id ` set rs"
  shows "(\<exists>xs. childReplies out p = Some xs \<and> r \<in> set xs) \<and> r \<notin> set (topLevelReplies out)"
proof -
  let ?s = "sort_key r_createdAt rs"
  let ?m = "buildReplyMap ?s"
  from assms(1) obtain tp ch where
    pa: "placeAll ?m ?s ([], Map.empty) = Some (tp, ch)" and
    out: "out = \<lparr> topLevelReplies = sort_key r_createdAt tp,
                  childReplies = (\<lambda>k. map_option (sort_key r_createdAt) (ch k)),
                  replyMap = ?m \<rparr>"
    by (auto simp: organizeRepliesIntoThreads_def Let_def split: option.splits)
  from assms(5) have "p \<notin> dom ?m" by (simp add: dom_buildReplyMap)
  then have np: "\<not> truthy (parentOf ?m p)"
    by (auto simp: parentOf_def truthy_def split: option.splits)
  from assms(2) have "r \<in> set ?s" by simp
  from placeAll_direct [OF pa this assms(3,4) np] have b: "r \<in> set (bucket ch p)" .
  then obtain xs where xs: "ch p = Some xs" "r \<in> set xs"
    by (cases "ch p") (auto simp: bucket_def)
  from placeAll_mono [OF pa] assms(3,4) have "r \<notin> set tp"
    by (auto simp: truthy_def)
  with xs show ?thesis by (simp add: out)
qed

lemma organize_sorted:
  assumes "organizeRepliesIntoThreads rs = Some out"
  shows "sorted (map r_createdAt (topLevelReplies out))
         \<and> (\<forall>k xs. childReplies out k = Some xs \<longrightarrow> sorted (map r_createdAt xs))"
  using assms
  by (auto simp: organizeRepliesIntoThreads_def Let_def split: option.splits)

lemma findTopParent_not_on_cycle:
  "findTopParent m c t0 = Some t \<Longrightarrow> (c, c) \<notin> (mapEdges m)\<^sup>+"
proof (induction rule: findTopParent.raw_induct [rotated 1, consumes 1])
  case (1 f m c t0 t)
  show ?case
  proof
    assume cyc: "(c, c) \<in> (mapEdges m)\<^sup>+"
    then obtain z where z: "(c, z) \<in> mapEdges m" "(z, c) \<in> (mapEdges m)\<^sup>*"
      by (auto dest: tranclD)
    from cyc obtain y where "(y, c) \<in> mapEdges m" by (auto elim: tranclE)
    then have c0: "c \<noteq> 0" by (simp add: mapEdges_def)
    from z(1) have pz: "parentOf m c = Some z" "z \<noteq> 0" by (simp_all add: mapEdges_def)
    with c0 "1.hyps" have "f m z z = Some t" by (simp add: truthy_def)
    from "1.IH" [OF this] have "(z, z) \<notin> (mapEdges m)\<^sup>+" .
    moreover from z(2) z(1) have "(z, z) \<in> (mapEdges m)\<^sup>+" by (rule rtrancl_into_trancl1)
    ultimately show False by contradiction
  qed
qed

lemma buildReplyMap_fold_other:
  "i \<notin> r_id ` set xs \<Longrightarrow> fold (\<lambda>reply m. m(r_id reply \<mapsto> reply)) xs m0 i = m0 i"
  by (induction xs arbitrary: m0) auto

lemma buildReplyMap_fold_distinct:
  "distinct (map r_id xs) \<Longrightarrow> r \<in> set xs \<Longrightarrow>
     fold (\<lambda>reply m. m(r_id reply \<mapsto> reply)) xs m0 (r_id r) = Some r"
proof (induction xs arbitrary: m0)
  case Nil
  then show ?case by simp
next
  case (Cons x xs)
  show ?case
  proof (cases "r \<in> set xs")
    case True
    with Cons show ?thesis by simp
  next
    case False
    with Cons.prems have xr: "x = r" and ni: "r_id r \<notin> r_id ` set xs" by auto
    have "fold (\<lambda>reply m. m(r_id reply \<mapsto> reply)) (x # xs) m0 (r_id r)
            = fold (\<lambda>reply m. m(r_id reply \<mapsto> reply)) xs (m0(r_id x \<mapsto> x)) (r_id r)"
      by (simp only: fold_simps comp_apply)
    also have "\<dots> = (m0(r_id x \<mapsto> x)) (r_id r)"
      by (rule buildReplyMap_fold_other [OF ni])
    also have "\<dots> = Some r" using xr by simp
    finally show ?thesis .
  qed
qed

lemma buildReplyMap_distinct:
  "distinct (map r_id xs) \<Longrightarrow> r \<in> set xs \<Longrightarrow> buildReplyMap xs (r_id r) = Some r"
  unfolding buildReplyMap_def by (rule buildReplyMap_fold_distinct)

lemma mapEdges_distinct:
  assumes "distinct (map r_id xs)"
  shows "mapEdges (buildReplyMap xs) = parentEdges xs"
proof
  show "mapEdges (buildReplyMap xs) \<subseteq> parentEdges xs" by (rule mapEdges_subset)
  show "parentEdges xs \<subseteq> mapEdges (buildReplyMap xs)"
    using buildReplyMap_distinct [OF assms]
    by (auto simp: parentEdges_eq mapEdges_def parentOf_def)
qed

lemma placeAll_None:
  "r \<in> set rs \<Longrightarrow> (\<And>acc. placeReply m r acc = None) \<Longrightarrow> placeAll m rs acc = None"
  by (induction rs arbitrary: acc) (auto split: option.splits)

lemma distinct_ids_sort:
  "distinct (map r_id rs) \<Longrightarrow> distinct (map r_id (sort_key f rs))"
  by (metis distinct_map distinct_sort set_sort)

lemma organize_cyclic:
  assumes d: "distinct (map r_id rs)" and c: "\<not> acyclic (parentEdges rs)"
  shows "organizeRepliesIntoThreads rs = None"
proof -
  let ?s = "sort_key r_createdAt rs"
  let ?m = "buildReplyMap ?s"
  have E: "mapEdges ?m = parentEdges rs"
    using mapEdges_distinct [OF distinct_ids_sort [OF d]] by (simp add: parentEdges_sort)
  from c obtain x where x: "(x, x) \<in> (mapEdges ?m)\<^sup>+" by (auto simp: acyclic_def E)
  then obtain p where p: "(x, p) \<in> mapEdges ?m" "(p, x) \<in> (mapEdges ?m)\<^sup>*"
    by (auto dest: tranclD)
  from p(2) p(1) have pp: "(p, p) \<in> (mapEdges ?m)\<^sup>+" by (rule rtrancl_into_trancl1)
  then obtain q where q: "(p, q) \<in> mapEdges ?m" by (auto dest: tranclD)
  from p(1) obtain r where r: "r \<in> set rs" "r_id r = x" "r_parentReplyId r = Some p" "p \<noteq> 0"
    unfolding E by (auto simp: parentEdges_eq)
  from q have tp: "truthy (parentOf ?m p)" by (simp add: mapEdges_def truthy_def)
  have "findTopParent ?m p p = None"
    using findTopParent_not_on_cycle [of ?m p p] pp by (cases "findTopParent ?m p p") auto
  with r tp have "\<And>acc. placeReply ?m r acc = None"
    by (simp add: placeReply_def truthy_def split: prod.splits)
  moreover from r(1) have "r \<in> set ?s" by simp
  ultimately have "placeAll ?m ?s ([], Map.empty) = None" by (rule placeAll_None [rotated])
  then show ?thesis by (simp add: organizeRepliesIntoThreads_def Let_def)
qed

subsection \<open>The concrete reply lists\<close>

lemma threadExample_acyclic: "acyclic (parentEdges threadExample)"
  by (rule acyclicI_order [where f = "\<lambda>x. x"])
     (auto simp: parentEdges_eq threadExample_def mkReply_def)

lemma unsortedExample_acyclic: "acyclic (parentEdges unsortedExample)"
  by (rule acyclicI_order [where f = "\<lambda>x. x"])
     (auto simp: parentEdges_eq unsortedExample_def mkReply_def)

lemma orphanExample_acyclic: "acyclic (parentEdges orphanExample)"
  by (rule acyclicI_order [where f = "\<lambda>x. - x"])
     (auto simp: parentEdges_eq orphanExample_def mkReply_def)

lemma selfParentExample_cyclic: "\<not> acyclic (parentEdges selfParentExample)"
proof -
  have "(1, 1) \<in> parentEdges selfParentExample"
    by (force simp: parentEdges_eq selfParentExample_def mkReply_def)
  then have "(1, 1) \<in> (parentEdges selfParentExample)\<^sup>+" by (rule r_into_trancl)
  then show ?thesis by (auto simp: acyclic_def)
qed

lemma mutualParentExample_cyclic: "\<not> acyclic (parentEdges mutualParentExample)"
proof -
  let ?E = "parentEdges mutualParentExample"
  have "(1, 2) \<in> ?E" "(2, 1) \<in> ?E"
    by (force simp: parentEdges_eq mutualParentExample_def mkReply_def)+
  then have "(1, 1) \<in> ?E\<^sup>+" by (meson trancl.simps)
  then show ?thesis by (auto simp: acyclic_def)
qed

lemma threadExample_result:
  "\<exists>out. organizeRepliesIntoThreads threadExample = Some out
         \<and> topLevelReplies out = [mkReply 1 None 1]
         \<and> childReplies out 1 = Some [mkReply 2 (Some 1) 2, mkReply 3 (Some 2) 3]
         \<and> dom (childReplies out) = {1}"
  by (auto simp: organizeRepliesIntoThreads_def threadExample_def mkReply_def buildReplyMap_def
        placeReply_def truthy_def parentOf_def findTopParent.simps pushChild_def dom_def)

lemma unsortedExample_result:
  "\<exists>out. organizeRepliesIntoThreads unsortedExample = Some out
         \<and> topLevelReplies out = [mkReply 1 None 10]
         \<and> childReplies out 1 = Some [mkReply 2 (Some 1) 20, mkReply 3 (Some 1) 30]"
  by (simp add: organizeRepliesIntoThreads_def unsortedExample_def mkReply_def buildReplyMap_def
        placeReply_def truthy_def parentOf_def findTopParent.simps pushChild_def)

lemma orphanExample_result:
  "\<exists>out. organizeRepliesIntoThreads orphanExample = Some out
         \<and> topLevelReplies out = []
         \<and> childReplies out 5 = Some [mkReply 1 (Some 5) 1]"
  by (simp add: organizeRepliesIntoThreads_def orphanExample_def mkReply_def buildReplyMap_def
        placeReply_def truthy_def parentOf_def findTopParent.simps pushChild_def)


section \<open>Thread Assembler: the claims\<close>

text \<open>
  C1, as stated, at a reply that names itself as parent: the ancestor chase never
  leaves the reply, so the assembler produces no output and the reply is in no bucket.
\<close>

theorem organize_self_parent_counterexample:
  "organizeRepliesIntoThreads [mkReply 1 (Some 1) 1] = None"
  using organize_cyclic [of selfParentExample] selfParentExample_cyclic
  by (simp add: selfParentExample_def mkReply_def)

text \<open>
  C1, amended: for every reply list whose parent references are acyclic, the assembler
  returns, and the top-level list together with the children buckets (finitely many)
  hold exactly the replies of the input, each as often as the input has it: no reply is
  lost or duplicated, whatever the nesting depth.  For the input
  \<open>[{id:1,parent:null,t:1},{id:2,parent:1,t:2},{id:3,parent:2,t:3}]\<close> the top-level list
  is \<open>[1]\<close> and the only bucket is \<open>children[1] = [2,3]\<close>.
\<close>

theorem organize_partition_acyclic:
  "(acyclic (parentEdges replies) \<longrightarrow>
      (\<exists>out. organizeRepliesIntoThreads replies = Some out
            \<and> finite (dom (childReplies out))
            \<and> allBuckets out = mset replies))
   \<and> (\<exists>out. organizeRepliesIntoThreads
               [mkReply 1 None 1, mkReply 2 (Some 1) 2, mkReply 3 (Some 2) 3] = Some out
            \<and> topLevelReplies out = [mkReply 1 None 1]
            \<and> childReplies out 1 = Some [mkReply 2 (Some 1) 2, mkReply 3 (Some 2) 3]
            \<and> dom (childReplies out) = {1})"
proof (intro conjI impI)
  assume "acyclic (parentEdges replies)"
  then obtain out where out: "organizeRepliesIntoThreads replies = Some out"
    using organize_terminates by blast
  with organize_partition [OF out]
  show "\<exists>out. organizeRepliesIntoThreads replies = Some out
            \<and> finite (dom (childReplies out)) \<and> allBuckets out = mset replies"
    by blast
next
  show "\<exists>out. organizeRepliesIntoThreads
               [mkReply 1 None 1, mkReply 2 (Some 1) 2, mkReply 3 (Some 2) 3] = Some out
            \<and> topLevelReplies out = [mkReply 1 None 1]
            \<and> childReplies out 1 = Some [mkReply 2 (Some 1) 2, mkReply 3 (Some 2) 3]
            \<and> dom (childReplies out) = {1}"
    using threadExample_result by (simp add: threadExample_def)
qed

theorem organize_partition_acyclic_witness:
  "acyclic (parentEdges unsortedExample)
   \<and> (\<exists>out. organizeRepliesIntoThreads unsortedExample = Some out
            \<and> finite (dom (childReplies out))
            \<and> allBuckets out = mset unsortedExample)"
  using organize_partition_acyclic [of unsortedExample] unsortedExample_acyclic
  by blast

text \<open>
  C2, as stated, at the single reply \<open>{id:1, parent:5}\<close> whose parent id 5 is not in the
  list: the top-level list is empty and the reply is in the bucket \<open>children[5]\<close>.
\<close>

theorem organize_missing_parent_counterexample:
  "organizeRepliesIntoThreads [mkReply 1 (Some 5) 1] \<noteq> None
   \<and> topLevelReplies (the (organizeRepliesIntoThreads [mkReply 1 (Some 5) 1])) = []
   \<and> childReplies (the (organizeRepliesIntoThreads [mkReply 1 (Some 5) 1])) 5
       = Some [mkReply 1 (Some 5) 1]"
  using orphanExample_result by (auto simp: orphanExample_def)

text \<open>
  C2, amended: a reply whose declared parent id is non-zero and is the id of no reply
  of the input is attached to the children bucket keyed by that absent id, and is not
  in the top-level list (the source: "if we can't find the parent, attach this reply
  directly to the parent").  The assembler returns on every list with acyclic parent
  references.
\<close>

theorem organize_missing_parent_bucket:
  "(\<forall>out r p. organizeRepliesIntoThreads replies = Some out \<and> r \<in> set replies
        \<and> r_parentReplyId r = Some p \<and> p \<noteq> 0 \<and> p \<notin> r_id ` set replies
      \<longrightarrow> (\<exists>xs. childReplies out p = Some xs \<and> r \<in> set xs)
          \<and> r \<notin> set (topLevelReplies out))
   \<and> (acyclic (parentEdges replies) \<longrightarrow> (\<exists>out. organizeRepliesIntoThreads replies = Some out))"
  using organize_missing_parent [of replies] organize_terminates [of replies] by blast

theorem organize_missing_parent_bucket_witness:
  "acyclic (parentEdges orphanExample)
   \<and> mkReply 1 (Some 5) 1 \<in> set orphanExample
   \<and> 5 \<notin> r_id ` set orphanExample
   \<and> (\<exists>out. organizeRepliesIntoThreads orphanExample = Some out
          \<and> (\<exists>xs. childReplies out 5 = Some xs \<and> mkReply 1 (Some 5) 1 \<in> set xs)
          \<and> mkReply 1 (Some 5) 1 \<notin> set (topLevelReplies out))"
proof -
  have a: "acyclic (parentEdges orphanExample)" by (rule orphanExample_acyclic)
  have m: "mkReply 1 (Some 5) 1 \<in> set orphanExample" by (simp add: orphanExample_def)
  have n: "5 \<notin> r_id ` set orphanExample" by (simp add: orphanExample_def mkReply_def)
  have p: "r_parentReplyId (mkReply 1 (Some 5) 1) = Some 5" by (simp add: mkReply_def)
  from organize_missing_parent_bucket [of orphanExample] a m n p
  show ?thesis by (metis zero_neq_numeral)
qed

text \<open>
  C7: in the assembler's output the top-level list and every children bucket are
  sorted in ascending order of the creation timestamps; and there is an output for
  every list with acyclic parent references.
\<close>

theorem organize_buckets_sorted:
  "(\<forall>out. organizeRepliesIntoThreads replies = Some out \<longrightarrow>
       sorted (map r_createdAt (topLevelReplies out))
       \<and> (\<forall>k xs. childReplies out k = Some xs \<longrightarrow> sorted (map r_createdAt xs)))
   \<and> (acyclic (parentEdges replies) \<longrightarrow> (\<exists>out. organizeRepliesIntoThreads replies = Some out))"
  using organize_sorted [of replies] organize_terminates [of replies] by blast

theorem organize_buckets_sorted_witness:
  "acyclic (parentEdges unsortedExample)
   \<and> (\<exists>out. organizeRepliesIntoThreads unsortedExample = Some out
          \<and> childReplies out 1 = Some [mkReply 2 (Some 1) 20, mkReply 3 (Some 1) 30]
          \<and> sorted (map r_createdAt (topLevelReplies out))
          \<and> sorted (map r_createdAt [mkReply 2 (Some 1) 20, mkReply 3 (Some 1) 30]))"
proof -
  from unsortedExample_result obtain out where
    out: "organizeRepliesIntoThreads unsortedExample = Some out"
      "childReplies out 1 = Some [mkReply 2 (Some 1) 20, mkReply 3 (Some 1) 30]"
    by blast
  from organize_buckets_sorted [of unsortedExample] out
  have "sorted (map r_createdAt (topLevelReplies out))"
    and "sorted (map r_createdAt [mkReply 2 (Some 1) 20, mkReply 3 (Some 1) 30])"
    by blast+
  with out unsortedExample_acyclic show ?thesis by blast
qed

text \<open>
  C10: the assembler returns for every reply list whose parent references are acyclic.
  A list of replies with distinct ids that has a cycle of parent references makes the
  ancestor chase run forever, so the assembler never returns; two replies naming each
  other as parent are such a list.
\<close>

theorem organize_terminates_iff_acyclic:
  "(acyclic (parentEdges replies) \<longrightarrow> (\<exists>out. organizeRepliesIntoThreads replies = Some out))
   \<and> (distinct (map r_id replies) \<and> \<not> acyclic (parentEdges replies)
        \<longrightarrow> organizeRepliesIntoThreads replies = None)
   \<and> organizeRepliesIntoThreads [mkReply 1 (Some 2) 1, mkReply 2 (Some 1) 2] = None"
proof (intro conjI impI)
  assume "acyclic (parentEdges replies)"
  then show "\<exists>out. organizeRepliesIntoThreads replies = Some out"
    by (rule organize_terminates)
next
  assume "distinct (map r_id replies) \<and> \<not> acyclic (parentEdges replies)"
  then show "organizeRepliesIntoThreads replies = None"
    using organize_cyclic by blast
next
  show "organizeRepliesIntoThreads [mkReply 1 (Some 2) 1, mkReply 2 (Some 1) 2] = None"
    using organize_cyclic [of mutualParentExample] mutualParentExample_cyclic
    by (simp add: mutualParentExample_def mkReply_def)
qed

theorem organize_terminates_iff_acyclic_witness:
  "acyclic (parentEdges threadExample)
   \<and> (\<exists>out. organizeRepliesIntoThreads threadExample = Some out)
   \<and> distinct (map r_id mutualParentExample)
   \<and> \<not> acyclic (parentEdges mutualParentExample)
   \<and> organizeRepliesIntoThreads mutualParentExample = None"
proof -
  have d: "distinct (map r_id mutualParentExample)"
    by (simp add: mutualParentExample_def mkReply_def)
  from organize_terminates_iff_acyclic [of threadExample] threadExample_acyclic
  have "\<exists>out. organizeRepliesIntoThreads threadExample = Some out" by blast
  moreover from organize_terminates_iff_acyclic [of mutualParentExample] d
    mutualParentExample_cyclic
  have "organizeRepliesIntoThreads mutualParentExample = None" by blast
  ultimately show ?thesis
    using threadExample_acyclic d mutualParentExample_cyclic by blast
qed


section \<open>Storage: documents and collections\<close>

lemma docGet_SomeD: "docGet key i ds = Some d \<Longrightarrow> d \<in> set ds \<and> key d = i"
  by (auto simp: docGet_def find_Some_iff)

lemma docGet_None_iff: "docGet key i ds = None \<longleftrightarrow> i \<notin> key ` set ds"
  by (auto simp: docGet_def find_None_iff)

lemma docGet_distinct:
  "distinct (map key ds) \<Longrightarrow> d \<in> set ds \<Longrightarrow> docGet key (key d) ds = Some d"
  by (induction ds) (auto simp: docGet_def)

lemma docGet_docUpdate:
  assumes "\<And>d. key (f d) = key d"
  shows "docGet key j (docUpdate key i f ds)
           = map_option (\<lambda>d. if key d = i then f d else d) (docGet key j ds)"
  using assms by (induction ds) (auto simp: docGet_def docUpdate_def)

lemma docGet_docDelete:
  "docGet key j (docDelete key i ds) = (if j = i then None else docGet key j ds)"
  by (induction ds) (auto simp: docGet_def docDelete_def)

lemma batchDelete_filter:
  "batchDelete key snapshot ds = filter (\<lambda>d. key d \<notin> key ` set snapshot) ds"
proof (induction snapshot arbitrary: ds)
  case Nil
  show ?case by (simp add: batchDelete_def)
next
  case (Cons x xs)
  have "batchDelete key (x # xs) ds = batchDelete key xs (docDelete key (key x) ds)"
    by (simp add: batchDelete_def)
  also have "\<dots> = filter (\<lambda>d. key d \<notin> key ` set xs) (docDelete key (key x) ds)"
    by (rule Cons.IH)
  also have "\<dots> = filter (\<lambda>d. key d \<notin> key ` set (x # xs)) ds"
    by (auto simp: docDelete_def intro: filter_cong)
  finally show ?case .
qed

lemma fold_max_ge: "(a::int) \<le> fold max xs a \<and> (\<forall>x \<in> set xs. x \<le> fold max xs a)"
proof (induction xs arbitrary: a)
  case Nil
  show ?case by simp
next
  case (Cons x xs)
  from Cons.IH [of "max x a"] show ?case by auto
qed

lemma nextId_greater: "d \<in> set ds \<Longrightarrow> key d < nextId key ds"
proof (cases ds)
  case Nil
  assume "d \<in> set ds" with Nil show ?thesis by simp
next
  case (Cons x xs)
  assume "d \<in> set ds"
  with Cons fold_max_ge [of "key x" "map key xs"]
  have "key d \<le> fold max (map key xs) (key x)" by auto
  with Cons show ?thesis by (simp add: nextId_def Let_def)
qed

lemma nextId_fresh: "nextId key ds \<notin> key ` set ds"
  using nextId_greater [of _ ds key] by force

lemma nextId_positive: "(\<forall>d \<in> set ds. 0 < key d) \<Longrightarrow> 0 < nextId key ds"
proof (cases ds)
  case Nil
  then show ?thesis by (simp add: nextId_def)
next
  case (Cons x xs)
  assume "\<forall>d \<in> set ds. 0 < key d"
  with Cons nextId_greater [of x ds key] show ?thesis by force
qed

lemma docSet_fresh: "key d \<notin> key ` set ds \<Longrightarrow> docSet key d ds = ds @ [d]"
  by (simp add: docSet_def)

lemma docGet_update_same:
  assumes "docGet key i ds = Some d" and "\<And>x. key (f x) = key x"
  shows "docGet key i (docUpdate key i f ds) = Some (f d)"
  using assms docGet_SomeD [OF assms(1)] by (simp add: docGet_docUpdate)

subsection \<open>deleteReply\<close>

lemma deleteReply_effect:
  assumes r: "getReply i s = Some reply" and a: "r_authorId reply = authorId"
  shows "\<exists>s'. deleteReply i authorId s = Inr s'
           \<and> getReply i s' = None
           \<and> (\<forall>v \<in> set (s_votes s'). v_replyId v \<noteq> Some i)
           \<and> set (s_replies s') = {x \<in> set (s_replies s). r_id x \<noteq> i}
           \<and> (\<forall>post. r_postId reply \<noteq> 0 \<and> getPost (r_postId reply) s = Some post
                    \<and> p_solutionId post = Some i
                  \<longrightarrow> getPost (r_postId reply) s' = Some (post\<lparr> p_solutionId := None \<rparr>))
           \<and> ((\<forall>post. getPost (r_postId reply) s = Some post \<longrightarrow> p_solutionId post \<noteq> Some i)
                  \<longrightarrow> s_posts s' = s_posts s)"
proof -
  let ?cond = "r_postId reply \<noteq> 0 \<and> (\<exists>post. getPost (r_postId reply) s = Some post
                  \<and> p_solutionId post = Some i)"
  let ?ps = "if ?cond then docUpdate p_id (r_postId reply) (\<lambda>p. p\<lparr> p_solutionId := None \<rparr>) (s_posts s)
             else s_posts s"
  let ?s' = "s\<lparr> s_posts := ?ps,
               s_votes := batchDelete v_id (filter (\<lambda>v. v_replyId v = Some i) (s_votes s)) (s_votes s),
               s_replies := docDelete r_id i (s_replies s) \<rparr>"
  from r a have d: "deleteReply i authorId s = Inr ?s'"
    by (auto simp: deleteReply_def Let_def split: option.splits)
  have 1: "getReply i ?s' = None" by (simp add: getReply_def docGet_docDelete)
  have 2: "\<forall>v \<in> set (s_votes ?s'). v_replyId v \<noteq> Some i"
    by (auto simp: batchDelete_filter)
  have 3: "set (s_replies ?s') = {x \<in> set (s_replies s). r_id x \<noteq> i}"
    by (auto simp: docDelete_def)
  have 4: "\<forall>post. r_postId reply \<noteq> 0 \<and> getPost (r_postId reply) s = Some post
                    \<and> p_solutionId post = Some i
                  \<longrightarrow> getPost (r_postId reply) ?s' = Some (post\<lparr> p_solutionId := None \<rparr>)"
  proof (intro allI impI)
    fix post
    assume h: "r_postId reply \<noteq> 0 \<and> getPost (r_postId reply) s = Some post
                    \<and> p_solutionId post = Some i"
    then have c: ?cond by blast
    from h have "docGet p_id (r_postId reply) (s_posts s) = Some post" by (simp add: getPost_def)
    then have "docGet p_id (r_postId reply)
                 (docUpdate p_id (r_postId reply) (\<lambda>p. p\<lparr> p_solutionId := None \<rparr>) (s_posts s))
               = Some (post\<lparr> p_solutionId := None \<rparr>)"
      by (intro docGet_update_same) simp_all
    moreover from c have "?ps = docUpdate p_id (r_postId reply) (\<lambda>p. p\<lparr> p_solutionId := None \<rparr>) (s_posts s)"
      by (auto split: if_splits)
    ultimately show "getPost (r_postId reply) ?s' = Some (post\<lparr> p_solutionId := None \<rparr>)"
      by (simp add: getPost_def)
  qed
  have 5: "(\<forall>post. getPost (r_postId reply) s = Some post \<longrightarrow> p_solutionId post \<noteq> Some i)
             \<longrightarrow> s_posts ?s' = s_posts s"
    by auto
  from d 1 2 3 4 5 show ?thesis by blast
qed

subsection \<open>createVote\<close>

lemma createVote_same_type:
  assumes "getVote userId postId replyId s = Inr (Some v)" and "v_voteType v = t"
  shows "createVote userId postId replyId t s = Inr (v, s)"
  using assms by (simp add: createVote_def)

lemma getVote_post_SomeD:
  assumes "getVote userId (Some pid) replyId s = Inr (Some v)" and "pid \<noteq> 0"
  shows "v \<in> set (s_votes s) \<and> v_userId v = userId \<and> v_postId v = Some pid"
  using assms by (auto simp: getVote_def truthy_def find_Some_iff)

lemma getVote_reply_SomeD:
  assumes "getVote userId postId (Some rid) s = Inr (Some v)" and "\<not> truthy postId"
  shows "v \<in> set (s_votes s) \<and> v_userId v = userId \<and> v_replyId v = Some rid"
  using assms by (auto simp: getVote_def find_Some_iff split: if_splits)

lemma setPostCounter_id [simp]: "p_id (setPostCounter t n p) = p_id p"
  by (simp add: setPostCounter_def)

lemma setReplyCounter_id [simp]: "r_id (setReplyCounter t n r) = r_id r"
  by (simp add: setReplyCounter_def)

lemma createVote_switch_post:
  assumes g: "getVote userId (Some pid) replyId s = Inr (Some v)" and nz: "pid \<noteq> 0"
    and d: "distinct (map v_id (s_votes s))" and t: "v_voteType v \<noteq> t"
    and p: "getPost pid s = Some post"
  shows "\<exists>s'. createVote userId (Some pid) replyId t s = Inr (v\<lparr> v_voteType := t \<rparr>, s')
           \<and> getPost pid s' =
               Some (setPostCounter t (postCounter t post + 1)
                      (setPostCounter (v_voteType v)
                         (max 0 (postCounter (v_voteType v) post - 1)) post))
           \<and> s_votes s' = docUpdate v_id (v_id v) (\<lambda>x. x\<lparr> v_voteType := t \<rparr>) (s_votes s)
           \<and> s_replies s' = s_replies s"
proof -
  from getVote_post_SomeD [OF g nz] have vin: "v \<in> set (s_votes s)" and vp: "v_postId v = Some pid"
    by simp_all
  from docGet_distinct [OF d vin] have dg: "docGet v_id (v_id v) (s_votes s) = Some v" .
  let ?ps = "docUpdate p_id pid (setPostCounter t (postCounter t post + 1))
               (docUpdate p_id pid
                  (setPostCounter (v_voteType v) (max 0 (postCounter (v_voteType v) post - 1)))
                  (s_posts s))"
  let ?s' = "s\<lparr> s_posts := ?ps,
               s_votes := docUpdate v_id (v_id v) (\<lambda>x. x\<lparr> v_voteType := t \<rparr>) (s_votes s) \<rparr>"
  from dg vp nz t p have u: "updateVote (v_id v) t s = Inr (v\<lparr> v_voteType := t \<rparr>, ?s')"
    by (simp add: updateVote_def truthy_def Let_def)
  with g t have c: "createVote userId (Some pid) replyId t s = Inr (v\<lparr> v_voteType := t \<rparr>, ?s')"
    by (simp add: createVote_def)
  from p have "docGet p_id pid (s_posts s) = Some post" by (simp add: getPost_def)
  then have "docGet p_id pid ?ps =
               Some (setPostCounter t (postCounter t post + 1)
                      (setPostCounter (v_voteType v)
                         (max 0 (postCounter (v_voteType v) post - 1)) post))"
    by (intro docGet_update_same) simp_all
  then have "getPost pid ?s' =
               Some (setPostCounter t (postCounter t post + 1)
                      (setPostCounter (v_voteType v)
                         (max 0 (postCounter (v_voteType v) post - 1)) post))"
    by (simp add: getPost_def)
  with c show ?thesis by auto
qed

lemma createVote_switch_reply:
  assumes g: "getVote userId postId (Some rid) s = Inr (Some v)" and np: "\<not> truthy postId"
    and nz: "rid \<noteq> 0" and vp: "\<not> truthy (v_postId v)"
    and d: "distinct (map v_id (s_votes s))" and t: "v_voteType v \<noteq> t"
    and r: "getReply rid s = Some reply"
  shows "\<exists>s'. createVote userId postId (Some rid) t s = Inr (v\<lparr> v_voteType := t \<rparr>, s')
           \<and> getReply rid s' =
               Some (setReplyCounter t (replyCounter t reply + 1)
                      (setReplyCounter (v_voteType v)
                         (max 0 (replyCounter (v_voteType v) reply - 1)) reply))
           \<and> s_votes s' = docUpdate v_id (v_id v) (\<lambda>x. x\<lparr> v_voteType := t \<rparr>) (s_votes s)
           \<and> s_posts s' = s_posts s"
proof -
  from getVote_reply_SomeD [OF g np] have vin: "v \<in> set (s_votes s)" and vr: "v_replyId v = Some rid"
    by simp_all
  from docGet_distinct [OF d vin] have dg: "docGet v_id (v_id v) (s_votes s) = Some v" .
  let ?rs = "docUpdate r_id rid (setReplyCounter t (replyCounter t reply + 1))
               (docUpdate r_id rid
                  (setReplyCounter (v_voteType v) (max 0 (replyCounter (v_voteType v) reply - 1)))
                  (s_replies s))"
  let ?s' = "s\<lparr> s_replies := ?rs,
               s_votes := docUpdate v_id (v_id v) (\<lambda>x. x\<lparr> v_voteType := t \<rparr>) (s_votes s) \<rparr>"
  from dg vr vp nz t r have u: "updateVote (v_id v) t s = Inr (v\<lparr> v_voteType := t \<rparr>, ?s')"
    by (simp add: updateVote_def truthy_def Let_def)
  with g t have c: "createVote userId postId (Some rid) t s = Inr (v\<lparr> v_voteType := t \<rparr>, ?s')"
    by (simp add: createVote_def)
  from r have "docGet r_id rid (s_replies s) = Some reply" by (simp add: getReply_def)
  then have "docGet r_id rid ?rs =
               Some (setReplyCounter t (replyCounter t reply + 1)
                      (setReplyCounter (v_voteType v)
                         (max 0 (replyCounter (v_voteType v) reply - 1)) reply))"
    by (intro docGet_update_same) simp_all
  then have "getReply rid ?s' =
               Some (setReplyCounter t (replyCounter t reply + 1)
                      (setReplyCounter (v_voteType v)
                         (max 0 (replyCounter (v_voteType v) reply - 1)) reply))"
    by (simp add: getReply_def)
  with c show ?thesis by auto
qed

lemma createVote_insert_post:
  assumes g: "getVote userId (Some pid) replyId s = Inr None" and nz: "pid \<noteq> 0"
    and p: "getPost pid s = Some post"
  shows "\<exists>newVote s'. createVote userId (Some pid) replyId t s = Inr (newVote, s')
           \<and> s_votes s' = s_votes s @ [newVote]
           \<and> v_userId newVote = userId \<and> v_postId newVote = Some pid
           \<and> v_voteType newVote = t
           \<and> getPost pid s' = Some (setPostCounter t (postCounter t post + 1) post)
           \<and> s_replies s' = s_replies s"
proof -
  let ?nv = "\<lparr> v_id = nextId v_id (s_votes s), v_userId = userId, v_postId = Some pid,
               v_replyId = (if truthy replyId then replyId else None), v_voteType = t \<rparr>"
  let ?ps = "docUpdate p_id pid (setPostCounter t (postCounter t post + 1)) (s_posts s)"
  let ?s' = "s\<lparr> s_votes := s_votes s @ [?nv], s_posts := ?ps \<rparr>"
  have f: "docSet v_id ?nv (s_votes s) = s_votes s @ [?nv]"
    using nextId_fresh [of v_id "s_votes s"] by (simp add: docSet_fresh)
  from g nz p f have c: "createVote userId (Some pid) replyId t s = Inr (?nv, ?s')"
    by (simp add: createVote_def truthy_def Let_def getPost_def)
  from p have "docGet p_id pid (s_posts s) = Some post" by (simp add: getPost_def)
  then have "docGet p_id pid ?ps = Some (setPostCounter t (postCounter t post + 1) post)"
    by (intro docGet_update_same) simp_all
  then have "getPost pid ?s' = Some (setPostCounter t (postCounter t post + 1) post)"
    by (simp add: getPost_def)
  with c show ?thesis by auto
qed

lemma createVote_insert_reply:
  assumes g: "getVote userId postId (Some rid) s = Inr None" and np: "\<not> truthy postId"
    and nz: "rid \<noteq> 0" and r: "getReply rid s = Some reply"
  shows "\<exists>newVote s'. createVote userId postId (Some rid) t s = Inr (newVote, s')
           \<and> s_votes s' = s_votes s @ [newVote]
           \<and> v_userId newVote = userId \<and> v_replyId newVote = Some rid
           \<and> v_voteType newVote = t
           \<and> getReply rid s' = Some (setReplyCounter t (replyCounter t reply + 1) reply)
           \<and> s_posts s' = s_posts s"
proof -
  let ?nv = "\<lparr> v_id = nextId v_id (s_votes s), v_userId = userId, v_postId = None,
               v_replyId = Some rid, v_voteType = t \<rparr>"
  let ?rs = "docUpdate r_id rid (setReplyCounter t (replyCounter t reply + 1)) (s_replies s)"
  let ?s' = "s\<lparr> s_votes := s_votes s @ [?nv], s_replies := ?rs \<rparr>"
  have f: "docSet v_id ?nv (s_votes s) = s_votes s @ [?nv]"
    using nextId_fresh [of v_id "s_votes s"] by (simp add: docSet_fresh)
  from g np nz r f have c: "createVote userId postId (Some rid) t s = Inr (?nv, ?s')"
    by (simp add: createVote_def truthy_def Let_def getReply_def)
  from r have "docGet r_id rid (s_replies s) = Some reply" by (simp add: getReply_def)
  then have "docGet r_id rid ?rs = Some (setReplyCounter t (replyCounter t reply + 1) reply)"
    by (intro docGet_update_same) simp_all
  then have "getReply rid ?s' = Some (setReplyCounter t (replyCounter t reply + 1) reply)"
    by (simp add: getReply_def)
  with c show ?thesis by auto
qed


section \<open>Storage: the solution invariant is maintained\<close>

lemma distinct_key_eq:
  "distinct (map key ds) \<Longrightarrow> x \<in> set ds \<Longrightarrow> y \<in> set ds \<Longrightarrow> key x = key y \<Longrightarrow> x = y"
  by (meson distinct_map inj_onD)

lemma solutionInv_atMostOne:
  assumes "solutionInv s"
  shows "atMostOneSolution s"
  unfolding atMostOneSolution_def
proof (intro ballI impI)
  fix p r r'
  assume p: "p \<in> set (s_posts s)" and r: "r \<in> set (s_replies s)" and r': "r' \<in> set (s_replies s)"
    and h: "r_postId r = p_id p \<and> r_isSolution r \<and> r_postId r' = p_id p \<and> r_isSolution r'"
  from assms have dp: "distinct (map p_id (s_posts s))" and dr: "distinct (map r_id (s_replies s))"
    by (simp_all add: solutionInv_def)
  from assms r h obtain q where q: "q \<in> set (s_posts s)" "p_id q = r_postId r"
      "p_solutionId q = Some (r_id r)"
    unfolding solutionInv_def by blast
  from assms r' h obtain q' where q': "q' \<in> set (s_posts s)" "p_id q' = r_postId r'"
      "p_solutionId q' = Some (r_id r')"
    unfolding solutionInv_def by blast
  from distinct_key_eq [OF dp q(1) p] q(2) h have "q = p" by simp
  moreover from distinct_key_eq [OF dp q'(1) p] q'(2) h have "q' = p" by simp
  ultimately have e: "p_solutionId p = Some (r_id r)" "r_id r = r_id r'" using q(3) q'(3) by simp_all
  from distinct_key_eq [OF dr r r' e(2)] e(1) show "r = r' \<and> p_solutionId p = Some (r_id r)" by simp
qed

lemma solutionInv_empty: "solutionInv emptyStore"
  by (simp add: solutionInv_def emptyStore_def)

lemma in_set_docUpdate:
  "x \<in> set (docUpdate key i f ds) \<longleftrightarrow> (\<exists>d \<in> set ds. x = (if key d = i then f d else d))"
  by (simp only: docUpdate_def set_map image_iff)

lemma map_key_docUpdate:
  "(\<And>d. key (f d) = key d) \<Longrightarrow> map key (docUpdate key i f ds) = map key ds"
  by (induction ds) (auto simp: docUpdate_def)

text \<open>Updates that touch only fields the invariant does not read.\<close>

lemma solutionInv_frame:
  assumes inv: "solutionInv s"
    and ps: "s_posts s' = map g (s_posts s)"
    and g: "\<And>p. p_id (g p) = p_id p \<and> p_solutionId (g p) = p_solutionId p"
    and rs: "s_replies s' = map h (s_replies s)"
    and h: "\<And>r. r_id (h r) = r_id r \<and> r_postId (h r) = r_postId r \<and> r_isSolution (h r) = r_isSolution r"
  shows "solutionInv s'"
proof -
  have mp: "map p_id (s_posts s') = map p_id (s_posts s)" by (simp add: ps g o_def)
  have mr: "map r_id (s_replies s') = map r_id (s_replies s)" by (simp add: rs h o_def)
  have 3: "\<forall>r \<in> set (s_replies s'). 0 < r_id r"
    using inv by (auto simp: solutionInv_def rs h)
  have 4: "\<forall>r \<in> set (s_replies s'). r_isSolution r \<longrightarrow>
           (\<exists>p \<in> set (s_posts s'). p_id p = r_postId r \<and> p_solutionId p = Some (r_id r))"
  proof (intro ballI impI)
    fix r assume "r \<in> set (s_replies s')" and f: "r_isSolution r"
    then obtain r0 where r0: "r0 \<in> set (s_replies s)" "r = h r0" by (auto simp: rs)
    with f h have "r_isSolution r0" by simp
    with inv r0 obtain p where p: "p \<in> set (s_posts s)" "p_id p = r_postId r0"
      "p_solutionId p = Some (r_id r0)" unfolding solutionInv_def by blast
    then have "g p \<in> set (s_posts s')" by (simp add: ps)
    moreover have "p_id (g p) = r_postId r \<and> p_solutionId (g p) = Some (r_id r)"
      using p r0 g h by simp
    ultimately show "\<exists>p \<in> set (s_posts s'). p_id p = r_postId r \<and> p_solutionId p = Some (r_id r)"
      by blast
  qed
  from inv mp mr 3 4 show ?thesis by (simp add: solutionInv_def)
qed

lemma docUpdate_as_map: "docUpdate key i f ds = map (\<lambda>d. if key d = i then f d else d) ds"
  by (simp add: docUpdate_def)

lemma solutionInv_users:
  "solutionInv s \<Longrightarrow> s_posts s' = s_posts s \<Longrightarrow> s_replies s' = s_replies s \<Longrightarrow> solutionInv s'"
  by (simp add: solutionInv_def)

lemma solutionInv_createUser: "solutionInv s \<Longrightarrow> solutionInv (snd (createUser u s))"
  by (rule solutionInv_users) (simp_all add: createUser_def)

lemma solutionInv_updateUsername:
  "solutionInv s \<Longrightarrow> updateUsername i n s = Inr (u, s') \<Longrightarrow> solutionInv s'"
  by (auto simp: updateUsername_def solutionInv_def split: option.splits)

lemma solutionInv_createPost:
  assumes inv: "solutionInv s"
  shows "solutionInv (snd (createPost title content category authorId now s))"
proof -
  let ?np = "\<lparr> p_id = nextId p_id (s_posts s), p_title = title, p_content = content,
               p_category = category, p_authorId = authorId, p_createdAt = now,
               p_upvotes = 0, p_downvotes = 0, p_solutionId = None \<rparr>"
  let ?s' = "s\<lparr> s_posts := s_posts s @ [?np] \<rparr>"
  have f: "docSet p_id ?np (s_posts s) = s_posts s @ [?np]"
    using nextId_fresh [of p_id "s_posts s"] by (simp add: docSet_fresh)
  then have e: "snd (createPost title content category authorId now s) = ?s'"
    by (simp add: createPost_def Let_def)
  have "solutionInv ?s'"
    using inv nextId_fresh [of p_id "s_posts s"] by (auto simp: solutionInv_def)
  with e show ?thesis by simp
qed

lemma solutionInv_createReply:
  assumes inv: "solutionInv s"
    and c: "createReply content postId parentReplyId authorId now s = Inr (r, s')"
  shows "solutionInv s'"
proof -
  let ?nr = "\<lparr> r_id = nextId r_id (s_replies s), r_content = content,
               r_postId = postId, r_authorId = authorId, r_createdAt = now,
               r_parentReplyId = (if truthy parentReplyId then parentReplyId else None),
               r_upvotes = 0, r_downvotes = 0, r_isSolution = False \<rparr>"
  have f: "docSet r_id ?nr (s_replies s) = s_replies s @ [?nr]"
    using nextId_fresh [of r_id "s_replies s"] by (simp add: docSet_fresh)
  with c have e: "s' = s\<lparr> s_replies := s_replies s @ [?nr] \<rparr>"
    by (auto simp: createReply_def Let_def split: if_splits)
  from inv have "0 < nextId r_id (s_replies s)"
    by (intro nextId_positive) (simp add: solutionInv_def)
  with inv nextId_fresh [of r_id "s_replies s"] show ?thesis
    unfolding e by (auto simp: solutionInv_def)
qed

lemma solutionInv_deletePost:
  assumes inv: "solutionInv s" and d: "deletePost i authorId s = Inr s'"
  shows "solutionInv s'"
proof -
  let ?snap = "filter (\<lambda>r. r_postId r = i) (s_replies s)"
  from d have ps: "s_posts s' = filter (\<lambda>p. p_id p \<noteq> i) (s_posts s)"
    and rs: "s_replies s' = filter (\<lambda>r. r_id r \<notin> r_id ` set ?snap) (s_replies s)"
    by (auto simp: deletePost_def Let_def batchDelete_filter docDelete_def
             split: option.splits if_splits)
  have 1: "distinct (map p_id (s_posts s'))"
    using inv by (simp add: ps solutionInv_def distinct_map_filter)
  have 2: "distinct (map r_id (s_replies s'))"
    using inv by (simp add: rs solutionInv_def distinct_map_filter)
  have 3: "\<forall>r \<in> set (s_replies s'). 0 < r_id r"
    using inv by (simp add: rs solutionInv_def)
  have 4: "\<forall>r \<in> set (s_replies s'). r_isSolution r \<longrightarrow>
           (\<exists>p \<in> set (s_posts s'). p_id p = r_postId r \<and> p_solutionId p = Some (r_id r))"
  proof (intro ballI impI)
    fix r assume r: "r \<in> set (s_replies s')" and f: "r_isSolution r"
    from r have r0: "r \<in> set (s_replies s)" and ni: "r_id r \<notin> r_id ` set ?snap"
      by (simp_all add: rs)
    from ni r0 have np: "r_postId r \<noteq> i" by auto
    from inv r0 f obtain p where p: "p \<in> set (s_posts s)" "p_id p = r_postId r"
      "p_solutionId p = Some (r_id r)" unfolding solutionInv_def by blast
    with np have "p \<in> set (s_posts s')" by (simp add: ps)
    with p show "\<exists>p \<in> set (s_posts s'). p_id p = r_postId r \<and> p_solutionId p = Some (r_id r)"
      by blast
  qed
  from 1 2 3 4 show ?thesis by (simp add: solutionInv_def)
qed


lemma solutionInv_deleteReply:
  assumes inv: "solutionInv s" and d: "deleteReply i authorId s = Inr s'"
  shows "solutionInv s'"
proof -
  from d obtain reply where reply: "getReply i s = Some reply"
    by (auto simp: deleteReply_def split: option.splits)
  let ?clear = "docUpdate p_id (r_postId reply) (\<lambda>p. p\<lparr> p_solutionId := None \<rparr>) (s_posts s)"
  let ?cond = "r_postId reply \<noteq> 0 \<and> (\<exists>post. getPost (r_postId reply) s = Some post
                  \<and> p_solutionId post = Some i)"
  from d reply have ps: "s_posts s' = (if ?cond then ?clear else s_posts s)"
    and rs: "s_replies s' = filter (\<lambda>r. r_id r \<noteq> i) (s_replies s)"
    by (auto simp: deleteReply_def Let_def docDelete_def split: option.splits if_splits)
  from inv have dp: "distinct (map p_id (s_posts s))" by (simp add: solutionInv_def)
  have 1: "distinct (map p_id (s_posts s'))"
    using dp by (simp add: ps map_key_docUpdate)
  have 2: "distinct (map r_id (s_replies s'))"
    using inv by (simp add: rs solutionInv_def distinct_map_filter)
  have 3: "\<forall>r \<in> set (s_replies s'). 0 < r_id r"
    using inv by (simp add: rs solutionInv_def)
  have 4: "\<forall>r \<in> set (s_replies s'). r_isSolution r \<longrightarrow>
           (\<exists>p \<in> set (s_posts s'). p_id p = r_postId r \<and> p_solutionId p = Some (r_id r))"
  proof (intro ballI impI)
    fix r assume r: "r \<in> set (s_replies s')" and f: "r_isSolution r"
    from r have r0: "r \<in> set (s_replies s)" and ni: "r_id r \<noteq> i" by (simp_all add: rs)
    from inv r0 f obtain p where p: "p \<in> set (s_posts s)" "p_id p = r_postId r"
      "p_solutionId p = Some (r_id r)" unfolding solutionInv_def by blast
    have "p \<in> set (s_posts s')"
    proof (cases ?cond)
      case False
      have "s_posts s' = s_posts s" using ps False by (auto split: if_splits)
      with p show ?thesis by simp
    next
      case True
      have ps': "s_posts s' = ?clear" using ps True by (auto split: if_splits)
      from True obtain post where post: "getPost (r_postId reply) s = Some post"
        "p_solutionId post = Some i" by blast
      from docGet_SomeD [OF post(1) [unfolded getPost_def]]
      have pin: "post \<in> set (s_posts s)" "p_id post = r_postId reply" by simp_all
      have "p_id p \<noteq> r_postId reply"
      proof
        assume "p_id p = r_postId reply"
        with distinct_key_eq [OF dp p(1) pin(1)] pin(2) have "p = post" by simp
        with p(3) post(2) ni show False by simp
      qed
      with p(1) show ?thesis unfolding ps' in_set_docUpdate by (intro bexI [of _ p]) simp_all
    qed
    with p show "\<exists>p \<in> set (s_posts s'). p_id p = r_postId r \<and> p_solutionId p = Some (r_id r)"
      by blast
  qed
  from 1 2 3 4 show ?thesis by (simp add: solutionInv_def)
qed

lemma setPostCounter_solutionId [simp]: "p_solutionId (setPostCounter t n p) = p_solutionId p"
  by (simp add: setPostCounter_def)

lemma setReplyCounter_fields [simp]:
  "r_postId (setReplyCounter t n r) = r_postId r"
  "r_isSolution (setReplyCounter t n r) = r_isSolution r"
  by (simp_all add: setReplyCounter_def)

lemma solutionInv_post_counters:
  assumes "solutionInv s"
    and "s_posts s' = docUpdate p_id i (setPostCounter t n) (docUpdate p_id j (setPostCounter u m) (s_posts s))"
    and "s_replies s' = s_replies s"
  shows "solutionInv s'"
proof (rule solutionInv_frame [OF assms(1), where h = "\<lambda>r. r"
    and g = "\<lambda>p. (if p_id (if p_id p = j then setPostCounter u m p else p) = i
                   then setPostCounter t n (if p_id p = j then setPostCounter u m p else p)
                   else (if p_id p = j then setPostCounter u m p else p))"])
  show "s_posts s' = map (\<lambda>p. (if p_id (if p_id p = j then setPostCounter u m p else p) = i
                   then setPostCounter t n (if p_id p = j then setPostCounter u m p else p)
                   else (if p_id p = j then setPostCounter u m p else p))) (s_posts s)"
    by (simp add: assms(2) docUpdate_def o_def)
qed (simp_all add: assms(3))

lemma solutionInv_reply_counters:
  assumes "solutionInv s"
    and "s_replies s' = docUpdate r_id i (setReplyCounter t n) (docUpdate r_id j (setReplyCounter u m) (s_replies s))"
    and "s_posts s' = s_posts s"
  shows "solutionInv s'"
proof (rule solutionInv_frame [OF assms(1), where g = "\<lambda>p. p"
    and h = "\<lambda>r. (if r_id (if r_id r = j then setReplyCounter u m r else r) = i
                   then setReplyCounter t n (if r_id r = j then setReplyCounter u m r else r)
                   else (if r_id r = j then setReplyCounter u m r else r))"])
  show "s_replies s' = map (\<lambda>r. (if r_id (if r_id r = j then setReplyCounter u m r else r) = i
                   then setReplyCounter t n (if r_id r = j then setReplyCounter u m r else r)
                   else (if r_id r = j then setReplyCounter u m r else r))) (s_replies s)"
    by (simp add: assms(2) docUpdate_def o_def)
qed (simp_all add: assms(3))

lemma docUpdate_absent: "i \<notin> key ` set ds \<Longrightarrow> docUpdate key i f ds = ds"
  by (induction ds) (auto simp: docUpdate_def)

lemma solutionInv_post_counter1:
  assumes "solutionInv s"
    and "s_posts s' = docUpdate p_id i (setPostCounter t n) (s_posts s)"
    and "s_replies s' = s_replies s"
  shows "solutionInv s'"
proof (rule solutionInv_frame [OF assms(1), where h = "\<lambda>r. r"
    and g = "\<lambda>p. if p_id p = i then setPostCounter t n p else p"])
  show "s_posts s' = map (\<lambda>p. if p_id p = i then setPostCounter t n p else p) (s_posts s)"
    by (simp add: assms(2) docUpdate_def)
qed (simp_all add: assms(3))

lemma solutionInv_reply_counter1:
  assumes "solutionInv s"
    and "s_replies s' = docUpdate r_id i (setReplyCounter t n) (s_replies s)"
    and "s_posts s' = s_posts s"
  shows "solutionInv s'"
proof (rule solutionInv_frame [OF assms(1), where g = "\<lambda>p. p"
    and h = "\<lambda>r. if r_id r = i then setReplyCounter t n r else r"])
  show "s_replies s' = map (\<lambda>r. if r_id r = i then setReplyCounter t n r else r) (s_replies s)"
    by (simp add: assms(2) docUpdate_def)
qed (simp_all add: assms(3))

lemma solutionInv_updateVote:
  assumes inv: "solutionInv s" and u: "updateVote voteId t s = Inr (v, s')"
  shows "solutionInv s'"
proof -
  from u obtain vote where vote: "docGet v_id voteId (s_votes s) = Some vote"
    by (auto simp: updateVote_def split: option.splits)
  consider
      (same) "s_posts s' = s_posts s" "s_replies s' = s_replies s"
    | (post) post where "s_replies s' = s_replies s"
        "s_posts s' = docUpdate p_id (the (v_postId vote))
                         (setPostCounter t (postCounter t post + 1))
                         (docUpdate p_id (the (v_postId vote))
                            (setPostCounter (v_voteType vote)
                               (max 0 (postCounter (v_voteType vote) post - 1)))
                            (s_posts s))"
    | (reply) reply where "s_posts s' = s_posts s"
        "s_replies s' = docUpdate r_id (the (v_replyId vote))
                         (setReplyCounter t (replyCounter t reply + 1))
                         (docUpdate r_id (the (v_replyId vote))
                            (setReplyCounter (v_voteType vote)
                               (max 0 (replyCounter (v_voteType vote) reply - 1)))
                            (s_replies s))"
    using u vote
    by (auto simp: updateVote_def Let_def split: option.splits if_splits)
  then show ?thesis
  proof cases
    case same
    with inv show ?thesis by (auto intro: solutionInv_users)
  next
    case post
    with inv show ?thesis by (auto intro: solutionInv_post_counters)
  next
    case reply
    with inv show ?thesis by (auto intro: solutionInv_reply_counters)
  qed
qed

lemma solutionInv_createVote:
  assumes inv: "solutionInv s" and c: "createVote userId postId replyId t s = Inr (v, s')"
  shows "solutionInv s'"
proof (cases "getVote userId postId replyId s")
  case (Inl e)
  with c show ?thesis by (simp add: createVote_def)
next
  case (Inr found)
  show ?thesis
  proof (cases found)
    case (Some existing)
    show ?thesis
    proof (cases "v_voteType existing = t")
      case True
      with c Inr Some inv show ?thesis by (simp add: createVote_def)
    next
      case False
      with c Inr Some have "updateVote (v_id existing) t s = Inr (v, s')"
        by (simp add: createVote_def)
      with inv show ?thesis by (rule solutionInv_updateVote)
    qed
  next
    case None
    consider
        (same) "s_posts s' = s_posts s" "s_replies s' = s_replies s"
      | (post) post where "s_replies s' = s_replies s"
          "s_posts s' = docUpdate p_id (the postId)
                           (setPostCounter t (postCounter t post + 1)) (s_posts s)"
      | (reply) reply where "s_posts s' = s_posts s"
          "s_replies s' = docUpdate r_id (the replyId)
                           (setReplyCounter t (replyCounter t reply + 1)) (s_replies s)"
      using c Inr None
      by (auto simp: createVote_def Let_def getPost_def getReply_def
               split: option.splits if_splits)
    then show ?thesis
    proof cases
      case same
      with inv show ?thesis by (auto intro: solutionInv_users)
    next
      case post
      with inv show ?thesis by (auto intro: solutionInv_post_counter1)
    next
      case reply
      with inv show ?thesis by (auto intro: solutionInv_reply_counter1)
    qed
  qed
qed


text \<open>Clearing the flag of the reply a post's \<open>solutionId\<close> names, if there is one.\<close>

lemma clear_old_solution:
  "(if truthy (p_solutionId post)
    then (case getReply (the (p_solutionId post)) s of
            None \<Rightarrow> s
          | Some old \<Rightarrow> s\<lparr> s_replies := docUpdate r_id (r_id old)
                                 (\<lambda>r. r\<lparr> r_isSolution := False \<rparr>) (s_replies s) \<rparr>)
    else s)
   = s\<lparr> s_replies := map (\<lambda>r. if truthy (p_solutionId post) \<and> p_solutionId post = Some (r_id r)
                               then r\<lparr> r_isSolution := False \<rparr> else r) (s_replies s) \<rparr>"
proof (cases "truthy (p_solutionId post)")
  case False
  then show ?thesis by simp
next
  case True
  then obtain k where k: "p_solutionId post = Some k" by (auto simp: truthy_def split: option.splits)
  show ?thesis
  proof (cases "getReply k s")
    case None
    then have "k \<notin> r_id ` set (s_replies s)" by (simp add: getReply_def docGet_None_iff)
    then have "map (\<lambda>r. if k = r_id r then r\<lparr> r_isSolution := False \<rparr> else r) (s_replies s) = s_replies s"
      by (intro map_idI) auto
    with True k None show ?thesis by simp
  next
    case (Some old)
    then have "r_id old = k" using docGet_SomeD [of r_id k "s_replies s" old] by (simp add: getReply_def)
    with True k Some show ?thesis
      by (auto simp: docUpdate_def intro!: arg_cong [where f = "\<lambda>x. s\<lparr> s_replies := x \<rparr>"])
  qed
qed

lemma markAsSolution_effect:
  assumes p: "getPost pid s = Some post" and r: "getReply rid s = Some reply"
    and b: "r_postId reply = pid"
  shows "markAsSolution pid rid s =
           Inr (s\<lparr> s_replies := map (\<lambda>r. if r_id r = rid then r\<lparr> r_isSolution := True \<rparr>
                                        else if truthy (p_solutionId post) \<and> p_solutionId post = Some (r_id r)
                                        then r\<lparr> r_isSolution := False \<rparr> else r) (s_replies s),
                    s_posts := docUpdate p_id pid (\<lambda>p. p\<lparr> p_solutionId := Some rid \<rparr>) (s_posts s) \<rparr>)"
proof -
  have "markAsSolution pid rid s =
          Inr ((s\<lparr> s_replies := map (\<lambda>r. if truthy (p_solutionId post) \<and> p_solutionId post = Some (r_id r)
                               then r\<lparr> r_isSolution := False \<rparr> else r) (s_replies s) \<rparr>)
               \<lparr> s_replies := docUpdate r_id rid (\<lambda>r. r\<lparr> r_isSolution := True \<rparr>)
                   (map (\<lambda>r. if truthy (p_solutionId post) \<and> p_solutionId post = Some (r_id r)
                               then r\<lparr> r_isSolution := False \<rparr> else r) (s_replies s)),
                 s_posts := docUpdate p_id pid (\<lambda>p. p\<lparr> p_solutionId := Some rid \<rparr>) (s_posts s) \<rparr>)"
    using p r b by (simp add: markAsSolution_def Let_def clear_old_solution)
  moreover have "docUpdate r_id rid (\<lambda>r. r\<lparr> r_isSolution := True \<rparr>)
                   (map (\<lambda>r. if truthy (p_solutionId post) \<and> p_solutionId post = Some (r_id r)
                               then r\<lparr> r_isSolution := False \<rparr> else r) (s_replies s))
        = map (\<lambda>r. if r_id r = rid then r\<lparr> r_isSolution := True \<rparr>
                    else if truthy (p_solutionId post) \<and> p_solutionId post = Some (r_id r)
                    then r\<lparr> r_isSolution := False \<rparr> else r) (s_replies s)"
    by (simp add: docUpdate_def)
  ultimately show ?thesis by simp
qed

lemma removeSolution_effect:
  assumes p: "getPost pid s = Some post"
  shows "removeSolution pid s =
           Inr (if truthy (p_solutionId post)
                then s\<lparr> s_replies := map (\<lambda>r. if p_solutionId post = Some (r_id r)
                                             then r\<lparr> r_isSolution := False \<rparr> else r) (s_replies s),
                        s_posts := docUpdate p_id pid (\<lambda>p. p\<lparr> p_solutionId := None \<rparr>) (s_posts s) \<rparr>
                else s)"
proof (cases "truthy (p_solutionId post)")
  case False
  with p show ?thesis by (simp add: removeSolution_def)
next
  case True
  have "(case getReply (the (p_solutionId post)) s of
            None \<Rightarrow> s
          | Some old \<Rightarrow> s\<lparr> s_replies := docUpdate r_id (r_id old)
                                 (\<lambda>r. r\<lparr> r_isSolution := False \<rparr>) (s_replies s) \<rparr>)
        = s\<lparr> s_replies := map (\<lambda>r. if p_solutionId post = Some (r_id r)
                               then r\<lparr> r_isSolution := False \<rparr> else r) (s_replies s) \<rparr>"
    using clear_old_solution [of post s] True by simp
  with p True show ?thesis by (simp add: removeSolution_def Let_def)
qed

text \<open>
  The step shared by \<open>markAsSolution\<close> and \<open>removeSolution\<close>: the replies are mapped by
  a function that keeps ids and post ids, and the post \<open>pid\<close> gets a new reference.
\<close>

lemma solutionInv_remark:
  assumes inv: "solutionInv s" and p: "getPost pid s = Some post"
    and ps: "s_posts s' = docUpdate p_id pid (\<lambda>p. p\<lparr> p_solutionId := new \<rparr>) (s_posts s)"
    and rs: "s_replies s' = map h (s_replies s)"
    and hid: "\<And>r. r_id (h r) = r_id r \<and> r_postId (h r) = r_postId r"
    and hflag: "\<And>r. r \<in> set (s_replies s) \<Longrightarrow> r_isSolution (h r) \<Longrightarrow>
                  (r_postId r = pid \<and> new = Some (r_id r))
                  \<or> (r_isSolution r \<and> p_solutionId post \<noteq> Some (r_id r))"
  shows "solutionInv s'"
proof -
  from inv have dp: "distinct (map p_id (s_posts s))" by (simp add: solutionInv_def)
  from docGet_SomeD [OF p [unfolded getPost_def]]
  have pin: "post \<in> set (s_posts s)" "p_id post = pid" by simp_all
  have 1: "distinct (map p_id (s_posts s'))"
    using dp by (simp add: ps map_key_docUpdate)
  have 2: "distinct (map r_id (s_replies s'))"
    using inv by (simp add: rs hid o_def solutionInv_def)
  have 3: "\<forall>r \<in> set (s_replies s'). 0 < r_id r"
    using inv by (auto simp: rs hid solutionInv_def)
  have 4: "\<forall>r \<in> set (s_replies s'). r_isSolution r \<longrightarrow>
           (\<exists>p \<in> set (s_posts s'). p_id p = r_postId r \<and> p_solutionId p = Some (r_id r))"
  proof (intro ballI impI)
    fix r' assume "r' \<in> set (s_replies s')" and f: "r_isSolution r'"
    then obtain r where r: "r \<in> set (s_replies s)" "r' = h r" by (auto simp: rs)
    from hflag [OF r(1)] f r(2)
    consider (new) "r_postId r = pid" "new = Some (r_id r)"
      | (old) "r_isSolution r" "p_solutionId post \<noteq> Some (r_id r)" by blast
    then show "\<exists>p \<in> set (s_posts s'). p_id p = r_postId r' \<and> p_solutionId p = Some (r_id r')"
    proof cases
      case new
      have "post\<lparr> p_solutionId := new \<rparr> \<in> set (s_posts s')"
        unfolding ps in_set_docUpdate using pin by (intro bexI [of _ post]) simp_all
      with new pin r(2) hid show ?thesis by (intro bexI [of _ "post\<lparr> p_solutionId := new \<rparr>"]) simp_all
    next
      case old
      with inv r(1) obtain q where q: "q \<in> set (s_posts s)" "p_id q = r_postId r"
        "p_solutionId q = Some (r_id r)" unfolding solutionInv_def by blast
      have "p_id q \<noteq> pid"
      proof
        assume "p_id q = pid"
        with distinct_key_eq [OF dp q(1) pin(1)] pin(2) have "q = post" by simp
        with q(3) old(2) show False by simp
      qed
      with q(1) have "q \<in> set (s_posts s')"
        unfolding ps in_set_docUpdate by (intro bexI [of _ q]) simp_all
      with q r(2) hid show ?thesis by (intro bexI [of _ q]) simp_all
    qed
  qed
  from 1 2 3 4 show ?thesis by (simp add: solutionInv_def)
qed

lemma solutionInv_markAsSolution:
  assumes inv: "solutionInv s" and m: "markAsSolution pid rid s = Inr s'"
  shows "solutionInv s'"
proof -
  from m obtain post reply where p: "getPost pid s = Some post"
    and r: "getReply rid s = Some reply" and b: "r_postId reply = pid"
    by (auto simp: markAsSolution_def split: option.splits if_splits)
  from docGet_SomeD [OF r [unfolded getReply_def]]
  have rin: "reply \<in> set (s_replies s)" "r_id reply = rid" by simp_all
  from inv have dr: "distinct (map r_id (s_replies s))"
    and pos: "\<forall>r \<in> set (s_replies s). 0 < r_id r" by (simp_all add: solutionInv_def)
  let ?h = "\<lambda>r. if r_id r = rid then r\<lparr> r_isSolution := True \<rparr>
                 else if truthy (p_solutionId post) \<and> p_solutionId post = Some (r_id r)
                 then r\<lparr> r_isSolution := False \<rparr> else r"
  from m markAsSolution_effect [OF p r b]
  have ps: "s_posts s' = docUpdate p_id pid (\<lambda>p. p\<lparr> p_solutionId := Some rid \<rparr>) (s_posts s)"
    and rs: "s_replies s' = map ?h (s_replies s)" by auto
  show ?thesis
  proof (rule solutionInv_remark [OF inv p ps rs])
    fix x show "r_id (?h x) = r_id x \<and> r_postId (?h x) = r_postId x" by simp
  next
    fix x assume x: "x \<in> set (s_replies s)" and f: "r_isSolution (?h x)"
    show "(r_postId x = pid \<and> Some rid = Some (r_id x))
          \<or> (r_isSolution x \<and> p_solutionId post \<noteq> Some (r_id x))"
    proof (cases "r_id x = rid")
      case True
      with distinct_key_eq [OF dr x rin(1)] rin(2) have "x = reply" by simp
      with b True show ?thesis by simp
    next
      case False
      from pos x have "r_id x \<noteq> 0" by auto
      with False f show ?thesis by (auto simp: truthy_def split: if_splits)
    qed
  qed
qed

lemma solutionInv_removeSolution:
  assumes inv: "solutionInv s" and m: "removeSolution pid s = Inr s'"
  shows "solutionInv s'"
proof -
  from m obtain post where p: "getPost pid s = Some post"
    by (auto simp: removeSolution_def split: option.splits)
  show ?thesis
  proof (cases "truthy (p_solutionId post)")
    case False
    with m removeSolution_effect [OF p] inv show ?thesis by simp
  next
    case True
    let ?h = "\<lambda>r. if p_solutionId post = Some (r_id r) then r\<lparr> r_isSolution := False \<rparr> else r"
    from m removeSolution_effect [OF p] True
    have ps: "s_posts s' = docUpdate p_id pid (\<lambda>p. p\<lparr> p_solutionId := None \<rparr>) (s_posts s)"
      and rs: "s_replies s' = map ?h (s_replies s)" by auto
    show ?thesis
    proof (rule solutionInv_remark [OF inv p ps rs])
      fix x show "r_id (?h x) = r_id x \<and> r_postId (?h x) = r_postId x" by simp
    next
      fix x assume "x \<in> set (s_replies s)" and "r_isSolution (?h x)"
      then show "(r_postId x = pid \<and> None = Some (r_id x))
            \<or> (r_isSolution x \<and> p_solutionId post \<noteq> Some (r_id x))"
        by (auto split: if_splits)
    qed
  qed
qed

lemma solutionInv_orElse:
  "solutionInv s \<Longrightarrow> (\<And>s'. res = Inr s' \<Longrightarrow> solutionInv s') \<Longrightarrow> solutionInv (orElse res s)"
  by (cases res) (simp_all add: orElse_def)

lemma solutionInv_applyOp: "solutionInv s \<Longrightarrow> solutionInv (applyOp op s)"
proof (cases op)
  case (CreateUser u)
  assume "solutionInv s" with CreateUser show ?thesis by (simp add: solutionInv_createUser)
next
  case (UpdateUsername i n)
  assume inv: "solutionInv s"
  show ?thesis unfolding UpdateUsername applyOp.simps
    by (rule solutionInv_orElse [OF inv])
       (cases "updateUsername i n s"; auto dest: solutionInv_updateUsername [OF inv])
next
  case (CreatePost a b c d e)
  assume "solutionInv s" with CreatePost show ?thesis by (simp add: solutionInv_createPost)
next
  case (DeletePost i a)
  assume inv: "solutionInv s"
  show ?thesis unfolding DeletePost applyOp.simps
    by (rule solutionInv_orElse [OF inv]) (rule solutionInv_deletePost [OF inv])
next
  case (CreateReply a b c d e)
  assume inv: "solutionInv s"
  show ?thesis unfolding CreateReply applyOp.simps
    by (rule solutionInv_orElse [OF inv])
       (cases "createReply a b c d e s"; auto dest: solutionInv_createReply [OF inv])
next
  case (DeleteReply i a)
  assume inv: "solutionInv s"
  show ?thesis unfolding DeleteReply applyOp.simps
    by (rule solutionInv_orElse [OF inv]) (rule solutionInv_deleteReply [OF inv])
next
  case (CreateVote a b c d)
  assume inv: "solutionInv s"
  show ?thesis unfolding CreateVote applyOp.simps
    by (rule solutionInv_orElse [OF inv])
       (cases "createVote a b c d s"; auto dest: solutionInv_createVote [OF inv])
next
  case (MarkAsSolution p r)
  assume inv: "solutionInv s"
  show ?thesis unfolding MarkAsSolution applyOp.simps
    by (rule solutionInv_orElse [OF inv]) (rule solutionInv_markAsSolution [OF inv])
next
  case (RemoveSolution p)
  assume inv: "solutionInv s"
  show ?thesis unfolding RemoveSolution applyOp.simps
    by (rule solutionInv_orElse [OF inv]) (rule solutionInv_removeSolution [OF inv])
qed

lemma solutionInv_run: "solutionInv s \<Longrightarrow> solutionInv (run ops s)"
  unfolding run_def by (induction ops arbitrary: s) (simp_all add: solutionInv_applyOp)

lemma postCounter_set:
  "postCounter t (setPostCounter u n p) = (if t = u then n else postCounter t p)"
  by (cases t; cases u) (simp_all add: postCounter_def setPostCounter_def)

lemma replyCounter_set:
  "replyCounter t (setReplyCounter u n r) = (if t = u then n else replyCounter t r)"
  by (cases t; cases u) (simp_all add: replyCounter_def setReplyCounter_def)

lemma markAsSolution_exclusive:
  assumes inv: "solutionInv s" and p: "getPost pid s = Some post"
    and r: "getReply rid s = Some reply" and b: "r_postId reply = pid"
  shows "\<exists>s'. markAsSolution pid rid s = Inr s'
           \<and> (\<forall>x \<in> set (s_replies s'). r_postId x = pid \<longrightarrow> (r_isSolution x \<longleftrightarrow> r_id x = rid))
           \<and> getPost pid s' = Some (post\<lparr> p_solutionId := Some rid \<rparr>)"
proof -
  let ?h = "\<lambda>r. if r_id r = rid then r\<lparr> r_isSolution := True \<rparr>
                 else if truthy (p_solutionId post) \<and> p_solutionId post = Some (r_id r)
                 then r\<lparr> r_isSolution := False \<rparr> else r"
  let ?s' = "s\<lparr> s_replies := map ?h (s_replies s),
               s_posts := docUpdate p_id pid (\<lambda>p. p\<lparr> p_solutionId := Some rid \<rparr>) (s_posts s) \<rparr>"
  have m: "markAsSolution pid rid s = Inr ?s'" by (rule markAsSolution_effect [OF p r b])
  from inv have dp: "distinct (map p_id (s_posts s))"
    and pos: "\<forall>r \<in> set (s_replies s). 0 < r_id r" by (simp_all add: solutionInv_def)
  from docGet_SomeD [OF p [unfolded getPost_def]]
  have pin: "post \<in> set (s_posts s)" "p_id post = pid" by simp_all
  have "\<forall>x \<in> set (s_replies ?s'). r_postId x = pid \<longrightarrow> (r_isSolution x \<longleftrightarrow> r_id x = rid)"
  proof (intro ballI impI)
    fix x' assume "x' \<in> set (s_replies ?s')" and xp: "r_postId x' = pid"
    then obtain x where x: "x \<in> set (s_replies s)" "x' = ?h x" by auto
    show "r_isSolution x' \<longleftrightarrow> r_id x' = rid"
    proof (cases "r_id x = rid")
      case True
      with x(2) show ?thesis by simp
    next
      case False
      have "\<not> r_isSolution x'"
      proof
        assume f: "r_isSolution x'"
        with x(2) False have fx: "r_isSolution x"
          and nc: "\<not> (truthy (p_solutionId post) \<and> p_solutionId post = Some (r_id x))"
          by (auto split: if_splits)
        from inv x(1) fx obtain q where q: "q \<in> set (s_posts s)" "p_id q = r_postId x"
          "p_solutionId q = Some (r_id x)" unfolding solutionInv_def by blast
        from x(2) xp have "r_postId x = pid" by (simp split: if_splits)
        with distinct_key_eq [OF dp q(1) pin(1)] q(2) pin(2) have "q = post" by simp
        with q(3) pos x(1) have "truthy (p_solutionId post) \<and> p_solutionId post = Some (r_id x)"
          by (auto simp: truthy_def)
        with nc show False by blast
      qed
      with False x(2) show ?thesis by simp
    qed
  qed
  moreover have "getPost pid ?s' = Some (post\<lparr> p_solutionId := Some rid \<rparr>)"
    using docGet_update_same [OF p [unfolded getPost_def], of "\<lambda>p. p\<lparr> p_solutionId := Some rid \<rparr>"]
    by (simp add: getPost_def)
  ultimately show ?thesis using m by blast
qed


text \<open>The truncation of the quoted text.\<close>

lemma quoteText_cases:
  "quoteText t = (if length t > 100 then take 100 t @ ''...'' else t)
   \<and> (length t > 100 \<longrightarrow> length (quoteText t) = 103)
   \<and> (length t \<le> 100 \<longrightarrow> quoteText t = t)"
  by (simp add: quoteText_def)


section \<open>Storage, routes and Quote Composer: the claims\<close>

text \<open>
  C3: \<open>deletePost\<close> applied by the author to a post whose reply has been voted on.
  In \<open>votedReplyStore\<close> alice's post 1 has the reply 1, bob's vote 1 is on the reply
  (\<open>replyId = 1\<close>, \<open>postId = null\<close>) and dave's vote 2 is on the post.  After
  \<open>deletePost(1, alice)\<close> the post, the reply and dave's vote are gone, and bob's vote on
  the deleted reply is still stored: the batch deletes only the votes whose \<open>postId\<close> is
  the post, whereas \<open>deleteReply\<close> deletes the votes of the reply it removes.
\<close>

theorem deletePost_leaves_reply_votes:
  "s_replies votedReplyStore =
     [\<lparr> r_id = 1, r_content = ''answer'', r_postId = 1, r_authorId = ''carol'',
        r_createdAt = 2, r_parentReplyId = None, r_upvotes = 1, r_downvotes = 0,
        r_isSolution = False \<rparr>]
   \<and> s_votes votedReplyStore =
       [\<lparr> v_id = 1, v_userId = ''bob'', v_postId = None, v_replyId = Some 1,
          v_voteType = upvote \<rparr>,
        \<lparr> v_id = 2, v_userId = ''dave'', v_postId = Some 1, v_replyId = None,
          v_voteType = upvote \<rparr>]
   \<and> map_option p_authorId (getPost 1 votedReplyStore) = Some ''alice''
   \<and> deletePost 1 ''alice'' votedReplyStore =
       Inr \<lparr> s_users = [], s_posts = [], s_replies = [],
             s_votes = [\<lparr> v_id = 1, v_userId = ''bob'', v_postId = None, v_replyId = Some 1,
                          v_voteType = upvote \<rparr>] \<rparr>"
  by code_simp

text \<open>
  C4, as stated, in the store \<open>driftStore\<close>, which six storage calls produce from the empty
  store: reply 1 has both counters at 0 and bob's upvote on reply 1 is stored.  When bob
  now votes \<open>downvote\<close> on reply 1, the type switch leaves the upvote counter at 0 (it is
  not decremented to -1) and raises the downvote counter to 1: no unit moves from one
  counter to the other.
\<close>

theorem createVote_switch_counterexample:
  "getVote ''bob'' None (Some 1) driftStore
     = Inr (Some \<lparr> v_id = 1, v_userId = ''bob'', v_postId = None, v_replyId = Some 1,
                   v_voteType = upvote \<rparr>)
   \<and> map_option r_upvotes (getReply 1 driftStore) = Some 0
   \<and> map_option r_downvotes (getReply 1 driftStore) = Some 0
   \<and> \<not> isl (createVote ''bob'' None (Some 1) downvote driftStore)
   \<and> map_option r_upvotes
        (getReply 1 (snd (projr (createVote ''bob'' None (Some 1) downvote driftStore)))) = Some 0
   \<and> map_option r_downvotes
        (getReply 1 (snd (projr (createVote ''bob'' None (Some 1) downvote driftStore)))) = Some 1"
  by code_simp

text \<open>
  C4, amended: \<open>createVote\<close> is idempotent for identical votes, and on a type switch the
  old type's counter is decremented by 1 but not below 0 (\<open>Math.max(0, n - 1)\<close>) while the
  new type's counter is incremented by 1.  For every voter and every existing target (a
  post \<open>pid\<close>, or a reply \<open>rid\<close>), in a store whose vote ids are unique:
  if the voter's vote on the target has the same type, the call returns it and changes
  nothing in the store; if it has the other type, the vote record gets the new type, the
  target's counter of the old type becomes \<open>max 0 (old - 1)\<close> and its counter of the new
  type grows by 1; if there is no vote, a vote of the voter on the target is appended to
  the votes, the matching counter grows by 1 and the other counter is unchanged.
\<close>

theorem createVote_ledger:
  "(getVote userId postId replyId s = Inr (Some v) \<and> v_voteType v = t
      \<longrightarrow> createVote userId postId replyId t s = Inr (v, s))
   \<and> (getVote userId (Some pid) replyId s = Inr (Some v) \<and> pid \<noteq> 0
       \<and> distinct (map v_id (s_votes s)) \<and> v_voteType v \<noteq> t \<and> getPost pid s = Some post
      \<longrightarrow> (\<exists>s' post'. createVote userId (Some pid) replyId t s = Inr (v\<lparr> v_voteType := t \<rparr>, s')
             \<and> getPost pid s' = Some post'
             \<and> postCounter (v_voteType v) post' = max 0 (postCounter (v_voteType v) post - 1)
             \<and> postCounter t post' = postCounter t post + 1
             \<and> s_votes s' = docUpdate v_id (v_id v) (\<lambda>x. x\<lparr> v_voteType := t \<rparr>) (s_votes s)))
   \<and> (getVote userId postId (Some rid) s = Inr (Some v) \<and> \<not> truthy postId \<and> rid \<noteq> 0
       \<and> \<not> truthy (v_postId v)
       \<and> distinct (map v_id (s_votes s)) \<and> v_voteType v \<noteq> t \<and> getReply rid s = Some reply
      \<longrightarrow> (\<exists>s' reply'. createVote userId postId (Some rid) t s = Inr (v\<lparr> v_voteType := t \<rparr>, s')
             \<and> getReply rid s' = Some reply'
             \<and> replyCounter (v_voteType v) reply' = max 0 (replyCounter (v_voteType v) reply - 1)
             \<and> replyCounter t reply' = replyCounter t reply + 1
             \<and> s_votes s' = docUpdate v_id (v_id v) (\<lambda>x. x\<lparr> v_voteType := t \<rparr>) (s_votes s)))
   \<and> (getVote userId (Some pid) replyId s = Inr None \<and> pid \<noteq> 0 \<and> getPost pid s = Some post
      \<longrightarrow> (\<exists>newVote s' post'. createVote userId (Some pid) replyId t s = Inr (newVote, s')
             \<and> s_votes s' = s_votes s @ [newVote]
             \<and> v_userId newVote = userId \<and> v_postId newVote = Some pid \<and> v_voteType newVote = t
             \<and> getPost pid s' = Some post'
             \<and> postCounter t post' = postCounter t post + 1
             \<and> (\<forall>u. u \<noteq> t \<longrightarrow> postCounter u post' = postCounter u post)))
   \<and> (getVote userId postId (Some rid) s = Inr None \<and> \<not> truthy postId \<and> rid \<noteq> 0
       \<and> getReply rid s = Some reply
      \<longrightarrow> (\<exists>newVote s' reply'. createVote userId postId (Some rid) t s = Inr (newVote, s')
             \<and> s_votes s' = s_votes s @ [newVote]
             \<and> v_userId newVote = userId \<and> v_replyId newVote = Some rid \<and> v_voteType newVote = t
             \<and> getReply rid s' = Some reply'
             \<and> replyCounter t reply' = replyCounter t reply + 1
             \<and> (\<forall>u. u \<noteq> t \<longrightarrow> replyCounter u reply' = replyCounter u reply)))"
proof (intro conjI impI)
  assume "getVote userId postId replyId s = Inr (Some v) \<and> v_voteType v = t"
  then show "createVote userId postId replyId t s = Inr (v, s)"
    by (simp add: createVote_same_type)
next
  assume h: "getVote userId (Some pid) replyId s = Inr (Some v) \<and> pid \<noteq> 0
       \<and> distinct (map v_id (s_votes s)) \<and> v_voteType v \<noteq> t \<and> getPost pid s = Some post"
  then have "v_voteType v \<noteq> t" by simp
  with createVote_switch_post [of userId pid replyId s v t post] h
  show "\<exists>s' post'. createVote userId (Some pid) replyId t s = Inr (v\<lparr> v_voteType := t \<rparr>, s')
             \<and> getPost pid s' = Some post'
             \<and> postCounter (v_voteType v) post' = max 0 (postCounter (v_voteType v) post - 1)
             \<and> postCounter t post' = postCounter t post + 1
             \<and> s_votes s' = docUpdate v_id (v_id v) (\<lambda>x. x\<lparr> v_voteType := t \<rparr>) (s_votes s)"
    by (auto simp: postCounter_set)
next
  assume h: "getVote userId postId (Some rid) s = Inr (Some v) \<and> \<not> truthy postId \<and> rid \<noteq> 0
       \<and> \<not> truthy (v_postId v)
       \<and> distinct (map v_id (s_votes s)) \<and> v_voteType v \<noteq> t \<and> getReply rid s = Some reply"
  then have "v_voteType v \<noteq> t" by simp
  with createVote_switch_reply [of userId postId rid s v t reply] h
  show "\<exists>s' reply'. createVote userId postId (Some rid) t s = Inr (v\<lparr> v_voteType := t \<rparr>, s')
             \<and> getReply rid s' = Some reply'
             \<and> replyCounter (v_voteType v) reply' = max 0 (replyCounter (v_voteType v) reply - 1)
             \<and> replyCounter t reply' = replyCounter t reply + 1
             \<and> s_votes s' = docUpdate v_id (v_id v) (\<lambda>x. x\<lparr> v_voteType := t \<rparr>) (s_votes s)"
    by (auto simp: replyCounter_set)
next
  assume h: "getVote userId (Some pid) replyId s = Inr None \<and> pid \<noteq> 0 \<and> getPost pid s = Some post"
  with createVote_insert_post [of userId pid replyId s post t]
  show "\<exists>newVote s' post'. createVote userId (Some pid) replyId t s = Inr (newVote, s')
             \<and> s_votes s' = s_votes s @ [newVote]
             \<and> v_userId newVote = userId \<and> v_postId newVote = Some pid \<and> v_voteType newVote = t
             \<and> getPost pid s' = Some post'
             \<and> postCounter t post' = postCounter t post + 1
             \<and> (\<forall>u. u \<noteq> t \<longrightarrow> postCounter u post' = postCounter u post)"
    by (auto simp: postCounter_set)
next
  assume h: "getVote userId postId (Some rid) s = Inr None \<and> \<not> truthy postId \<and> rid \<noteq> 0
       \<and> getReply rid s = Some reply"
  with createVote_insert_reply [of userId postId rid s reply t]
  show "\<exists>newVote s' reply'. createVote userId postId (Some rid) t s = Inr (newVote, s')
             \<and> s_votes s' = s_votes s @ [newVote]
             \<and> v_userId newVote = userId \<and> v_replyId newVote = Some rid \<and> v_voteType newVote = t
             \<and> getReply rid s' = Some reply'
             \<and> replyCounter t reply' = replyCounter t reply + 1
             \<and> (\<forall>u. u \<noteq> t \<longrightarrow> replyCounter u reply' = replyCounter u reply)"
    by (auto simp: replyCounter_set)
qed

theorem createVote_ledger_witness:
  "getVote ''bob'' None (Some 1) votedReplyStore = Inr (Some bobUpvote)
   \<and> getReply 1 votedReplyStore = Some carolReply
   \<and> createVote ''bob'' None (Some 1) upvote votedReplyStore = Inr (bobUpvote, votedReplyStore)
   \<and> (\<exists>s' reply'. createVote ''bob'' None (Some 1) downvote votedReplyStore
                       = Inr (bobUpvote\<lparr> v_voteType := downvote \<rparr>, s')
          \<and> getReply 1 s' = Some reply'
          \<and> replyCounter upvote carolReply = 1 \<and> replyCounter upvote reply' = 0
          \<and> replyCounter downvote carolReply = 0 \<and> replyCounter downvote reply' = 1)
   \<and> getVote ''erin'' (Some 1) None votedReplyStore = Inr None
   \<and> getPost 1 votedReplyStore = Some alicePost
   \<and> (\<exists>newVote s' post'. createVote ''erin'' (Some 1) None downvote votedReplyStore
                              = Inr (newVote, s')
          \<and> s_votes s' = s_votes votedReplyStore @ [newVote]
          \<and> getPost 1 s' = Some post'
          \<and> postCounter downvote alicePost = 0 \<and> postCounter downvote post' = 1
          \<and> postCounter upvote alicePost = 1 \<and> postCounter upvote post' = 1)"
proof -
  have g: "getVote ''bob'' None (Some 1) votedReplyStore = Inr (Some bobUpvote)" by code_simp
  have r: "getReply 1 votedReplyStore = Some carolReply" by code_simp
  have d: "distinct (map v_id (s_votes votedReplyStore))" by code_simp
  have vt: "v_voteType bobUpvote = upvote" "\<not> truthy (v_postId bobUpvote)" "\<not> truthy None"
    by (simp_all add: bobUpvote_def truthy_def)
  have c: "replyCounter upvote carolReply = 1" "replyCounter downvote carolReply = 0"
    by (simp_all add: carolReply_def replyCounter_def)
  have ge: "getVote ''erin'' (Some 1) None votedReplyStore = Inr None" by code_simp
  have p: "getPost 1 votedReplyStore = Some alicePost" by code_simp
  have pc: "postCounter upvote alicePost = 1" "postCounter downvote alicePost = 0"
    by (simp_all add: alicePost_def postCounter_def)
  from createVote_ledger [where userId = "''bob''" and postId = None and replyId = "Some 1"
      and s = votedReplyStore and v = bobUpvote and t = upvote] g vt
  have same: "createVote ''bob'' None (Some 1) upvote votedReplyStore = Inr (bobUpvote, votedReplyStore)"
    by blast
  from createVote_ledger [where userId = "''bob''" and postId = None and rid = 1
      and s = votedReplyStore and v = bobUpvote and t = downvote and reply = carolReply] g r d vt
  obtain s' reply' where sw:
    "createVote ''bob'' None (Some 1) downvote votedReplyStore
       = Inr (bobUpvote\<lparr> v_voteType := downvote \<rparr>, s')"
    "getReply 1 s' = Some reply'"
    "replyCounter (v_voteType bobUpvote) reply' = max 0 (replyCounter (v_voteType bobUpvote) carolReply - 1)"
    "replyCounter downvote reply' = replyCounter downvote carolReply + 1"
    by (metis VoteType.distinct(1) zero_neq_one)
  from sw(3,4) have sw': "replyCounter upvote reply' = 0" "replyCounter downvote reply' = 1"
    by (simp_all add: vt c)
  from createVote_ledger [where userId = "''erin''" and pid = 1 and replyId = None
      and s = votedReplyStore and t = downvote and post = alicePost] ge p
  obtain newVote s2 post' where ins:
    "createVote ''erin'' (Some 1) None downvote votedReplyStore = Inr (newVote, s2)"
    "s_votes s2 = s_votes votedReplyStore @ [newVote]"
    "getPost 1 s2 = Some post'"
    "postCounter downvote post' = postCounter downvote alicePost + 1"
    "\<forall>u. u \<noteq> downvote \<longrightarrow> postCounter u post' = postCounter u alicePost"
    by (metis zero_neq_one)
  from ins(4,5) have ins': "postCounter downvote post' = 1" "postCounter upvote post' = 1"
    by (simp_all add: pc)
  from g r same sw(1,2) sw' c ge p ins(1-3) ins' pc show ?thesis by blast
qed

text \<open>
  C5: every post has at most one active solution in every reachable state.  In every
  store that a sequence of storage operations (\<open>markAsSolution\<close>, \<open>removeSolution\<close>,
  \<open>deleteReply\<close>, and also the create, vote and delete-post operations) produces from the
  empty store, at most one reply of a post has \<open>isSolution\<close> set and it is the one the
  post's \<open>solutionId\<close> references; and \<open>markAsSolution\<close> of a reply of a post in such a
  store succeeds and leaves exactly that reply flagged among the post's replies (the
  old solution's flag is cleared), with the post's \<open>solutionId\<close> set to it.
\<close>

theorem at_most_one_solution:
  "atMostOneSolution (run ops emptyStore)
   \<and> (getPost pid (run ops emptyStore) = Some post
       \<and> getReply rid (run ops emptyStore) = Some reply \<and> r_postId reply = pid
      \<longrightarrow> (\<exists>s'. markAsSolution pid rid (run ops emptyStore) = Inr s'
             \<and> (\<forall>x \<in> set (s_replies s'). r_postId x = pid \<longrightarrow> (r_isSolution x \<longleftrightarrow> r_id x = rid))
             \<and> getPost pid s' = Some (post\<lparr> p_solutionId := Some rid \<rparr>)))"
proof -
  have inv: "solutionInv (run ops emptyStore)"
    by (rule solutionInv_run [OF solutionInv_empty])
  then have "atMostOneSolution (run ops emptyStore)" by (rule solutionInv_atMostOne)
  with markAsSolution_exclusive [OF inv, of pid post rid reply] show ?thesis by blast
qed

theorem at_most_one_solution_witness:
  "map r_isSolution (s_replies solutionStore) = [True, False]
   \<and> map r_postId (s_replies solutionStore) = [1, 1]
   \<and> map p_solutionId (s_posts solutionStore) = [Some 1]
   \<and> atMostOneSolution solutionStore
   \<and> (\<exists>s'. markAsSolution 1 2 solutionStore = Inr s'
          \<and> map r_isSolution (s_replies s') = [False, True]
          \<and> map p_solutionId (s_posts s') = [Some 2]
          \<and> (\<forall>x \<in> set (s_replies s'). r_postId x = 1 \<longrightarrow> (r_isSolution x \<longleftrightarrow> r_id x = 2)))"
proof -
  have a: "map r_isSolution (s_replies solutionStore) = [True, False]"
    "map r_postId (s_replies solutionStore) = [1, 1]"
    "map p_solutionId (s_posts solutionStore) = [Some 1]" by code_simp+
  have p: "getPost 1 solutionStore = Some (the (getPost 1 solutionStore))" by code_simp
  have r: "getReply 2 solutionStore = Some (the (getReply 2 solutionStore))" by code_simp
  have b: "r_postId (the (getReply 2 solutionStore)) = 1" by code_simp
  have m: "map r_isSolution (s_replies (projr (markAsSolution 1 2 solutionStore))) = [False, True]"
    "map p_solutionId (s_posts (projr (markAsSolution 1 2 solutionStore))) = [Some 2]"
    by code_simp+
  note T = at_most_one_solution [of solutionOps 1 "the (getPost 1 solutionStore)" 2
      "the (getReply 2 solutionStore)", folded solutionStore_def]
  from T have one: "atMostOneSolution solutionStore" by (rule conjunct1)
  have hyp: "getPost 1 solutionStore = Some (the (getPost 1 solutionStore))
       \<and> getReply 2 solutionStore = Some (the (getReply 2 solutionStore))
       \<and> r_postId (the (getReply 2 solutionStore)) = 1"
    using p r b by (intro conjI)
  from T [THEN conjunct2, THEN mp, OF hyp]
  obtain s' where s': "markAsSolution 1 2 solutionStore = Inr s'"
    "\<forall>x \<in> set (s_replies s'). r_postId x = 1 \<longrightarrow> (r_isSolution x \<longleftrightarrow> r_id x = 2)"
    by (elim exE conjE)
  from s'(1) m have "map r_isSolution (s_replies s') = [False, True]"
    "map p_solutionId (s_posts s') = [Some 2]" by simp_all
  with a one s' show ?thesis by (intro conjI exI [of _ s']) assumption+
qed

text \<open>
  C6: the Quote Composer on a reply that already contains a quote.  The reply
  \<open>hello\nworld\<close> of alice is answered with \<open>thanks\<close>: the composed body is
  \<open>@alice:\n> hello\nworld\n\nthanks\<close>, with the quote marker on the first quoted line
  only.  When bob's user name is shown with that body and it is answered with \<open>ok\<close>, the
  run of \<open>>\<close> lines ends after \<open>> hello\<close>, so the new quote is \<open>world\n\nthanks\<close>: it
  still holds the line \<open>world\<close> of the embedded quote, not only the text \<open>thanks\<close>
  authored after it.
\<close>

theorem requote_keeps_quoted_line:
  "finalContent ''thanks'' (Some (1, Some ''alice'')) [1 \<mapsto> twoLineReply]
     = ''@alice:\<newline>> hello\<newline>world\<newline>\<newline>thanks''
   \<and> finalContent ''ok'' (Some (2, Some ''bob''))
        [2 \<mapsto> (mkReply 2 (Some 1) 2)
                 \<lparr> r_content := ''@alice:\<newline>> hello\<newline>world\<newline>\<newline>thanks'' \<rparr>]
     = ''@bob:\<newline>> world\<newline>\<newline>thanks\<newline>\<newline>ok''"
  by code_simp

text \<open>
  C8: two \<open>POST /api/users\<close> requests with different ids and the same user name both
  succeed with status 200 and leave two distinct users with the same user name in the
  store; \<open>createUser\<close> makes no uniqueness check, whereas \<open>PATCH /api/users/:id/username\<close>
  rejects the same name with status 400.
\<close>

theorem postUser_duplicate_username:
  "postUser secondUser (snd (postUser firstUser emptyStore))
     = (200, \<lparr> s_users = [firstUser, secondUser], s_posts = [], s_replies = [], s_votes = [] \<rparr>)
   \<and> u_id firstUser \<noteq> u_id secondUser
   \<and> u_username firstUser = u_username secondUser
   \<and> fst (patchUsername ''uid2'' ''QuickRedFox'' (snd (postUser firstUser emptyStore))) = 400"
  by code_simp

text \<open>
  C9: \<open>deleteReply\<close>, applied by the reply's author to a stored reply, succeeds, deletes
  the reply and every vote whose \<open>replyId\<close> is the reply, and keeps the other replies;
  when the reply is currently the solution of its post (the stored post with the reply's
  \<open>postId\<close>, which the storage never stores falsy, has \<open>solutionId\<close> equal to the reply's
  id) it sets that post's \<open>solutionId\<close> to null, and when it is not the solution it
  leaves the posts, hence the post's \<open>solutionId\<close>, unchanged.
\<close>

theorem deleteReply_clears_solution:
  assumes "getReply i s = Some reply" and "r_authorId reply = authorId"
  shows "\<exists>s'. deleteReply i authorId s = Inr s'
           \<and> getReply i s' = None
           \<and> (\<forall>v \<in> set (s_votes s'). v_replyId v \<noteq> Some i)
           \<and> set (s_replies s') = {x \<in> set (s_replies s). r_id x \<noteq> i}
           \<and> (\<forall>post. r_postId reply \<noteq> 0 \<and> getPost (r_postId reply) s = Some post
                    \<and> p_solutionId post = Some i
                  \<longrightarrow> getPost (r_postId reply) s' = Some (post\<lparr> p_solutionId := None \<rparr>))
           \<and> ((\<forall>post. getPost (r_postId reply) s = Some post \<longrightarrow> p_solutionId post \<noteq> Some i)
                  \<longrightarrow> s_posts s' = s_posts s)"
  using assms by (rule deleteReply_effect)

theorem deleteReply_clears_solution_witness:
  "map_option r_authorId (getReply 1 solvedVotedStore) = Some ''carol''
   \<and> map_option r_postId (getReply 1 solvedVotedStore) = Some 1
   \<and> map_option p_solutionId (getPost 1 solvedVotedStore) = Some (Some 1)
   \<and> map v_replyId (s_votes solvedVotedStore) = [Some 1]
   \<and> (\<exists>s'. deleteReply 1 ''carol'' solvedVotedStore = Inr s'
          \<and> getReply 1 s' = None
          \<and> (\<forall>v \<in> set (s_votes s'). v_replyId v \<noteq> Some 1)
          \<and> map_option p_solutionId (getPost 1 s') = Some None)
   \<and> map_option r_authorId (getReply 2 solvedVotedStore) = Some ''dave''
   \<and> (\<exists>s'. deleteReply 2 ''dave'' solvedVotedStore = Inr s'
          \<and> getReply 2 s' = None
          \<and> s_posts s' = s_posts solvedVotedStore)"
proof -
  let ?r1 = "the (getReply 1 solvedVotedStore)"
  let ?r2 = "the (getReply 2 solvedVotedStore)"
  let ?p = "the (getPost 1 solvedVotedStore)"
  have a: "map_option r_authorId (getReply 1 solvedVotedStore) = Some ''carol''"
    "map_option r_postId (getReply 1 solvedVotedStore) = Some 1"
    "map_option p_solutionId (getPost 1 solvedVotedStore) = Some (Some 1)"
    "map v_replyId (s_votes solvedVotedStore) = [Some 1]"
    "map_option r_authorId (getReply 2 solvedVotedStore) = Some ''dave''" by code_simp+
  have h1: "getReply 1 solvedVotedStore = Some ?r1" "r_authorId ?r1 = ''carol''" by code_simp+
  have p1: "r_postId ?r1 \<noteq> 0 \<and> getPost (r_postId ?r1) solvedVotedStore = Some ?p
              \<and> p_solutionId ?p = Some 1" by code_simp
  have q1: "r_postId ?r1 = 1" by code_simp
  have h2: "getReply 2 solvedVotedStore = Some ?r2" "r_authorId ?r2 = ''dave''" by code_simp+
  have g2: "getPost (r_postId ?r2) solvedVotedStore = Some ?p" "p_solutionId ?p \<noteq> Some 2"
    by code_simp+
  have p2: "\<forall>post. getPost (r_postId ?r2) solvedVotedStore = Some post
              \<longrightarrow> p_solutionId post \<noteq> Some 2"
    using g2 by auto
  from deleteReply_clears_solution [OF h1]
  obtain s1 where s1: "deleteReply 1 ''carol'' solvedVotedStore = Inr s1"
    "getReply 1 s1 = None" "\<forall>v \<in> set (s_votes s1). v_replyId v \<noteq> Some 1"
    "\<forall>post. r_postId ?r1 \<noteq> 0 \<and> getPost (r_postId ?r1) solvedVotedStore = Some post
                    \<and> p_solutionId post = Some 1
                  \<longrightarrow> getPost (r_postId ?r1) s1 = Some (post\<lparr> p_solutionId := None \<rparr>)"
    by (elim exE conjE)
  from s1(4) p1 have "getPost (r_postId ?r1) s1 = Some (?p\<lparr> p_solutionId := None \<rparr>)" by blast
  then have c1: "map_option p_solutionId (getPost 1 s1) = Some None" by (simp add: q1)
  from deleteReply_clears_solution [OF h2]
  obtain s2 where s2: "deleteReply 2 ''dave'' solvedVotedStore = Inr s2"
    "getReply 2 s2 = None"
    "(\<forall>post. getPost (r_postId ?r2) solvedVotedStore = Some post \<longrightarrow> p_solutionId post \<noteq> Some 2)
       \<longrightarrow> s_posts s2 = s_posts solvedVotedStore"
    by (elim exE conjE)
  from s2(3) p2 have c2: "s_posts s2 = s_posts solvedVotedStore" by (rule mp)
  from a s1(1-3) c1 s2(1,2) c2 show ?thesis
    by (intro conjI exI [of _ s1] exI [of _ s2]) assumption+
qed

end
